theory Spec2Isabelle
  imports Complex_Main
begin

section \<open>The plaster effect pipeline (utils/plaster-effect)\<close>

text \<open>
  JavaScript numbers are modelled as \<^typ>\<open>real\<close> (exact arithmetic: no rounding, no NaN,
  no infinities), array indices and raster dimensions as \<^typ>\<open>nat\<close>, loop offsets as
  \<^typ>\<open>int\<close>. A \<open>Float32Array\<close> is a \<^typ>\<open>real list\<close>; \<open>new Float32Array(n)\<close> is
  \<open>replicate n 0\<close>; a write \<open>a[i] = v\<close> is \<open>a[i := v]\<close> (a typed array ignores a write
  past its end, as \<open>list_update\<close> does). A \<open>for\<close> loop over an index range is a
  \<open>fold\<close> over that range. Reads \<open>a[i]\<close> are \<open>a ! i\<close>: they are in range whenever
  a scalar field holds \<open>width * height\<close> samples and the pixel data four bytes for each
  of them, as in every call the render makes; the theorems below assume it.
\<close>

subsection \<open>Settings and constants\<close>

record EffectSettings =
  depth :: real
  luminosity :: real
  sheen :: real
  matte :: real
  smoothness :: real
  microDetail :: real
  backgroundLift :: real
  macroZoom :: real
  standHeight :: real
  vignette :: real

definition OUTPUT_WIDTH :: nat where
  "OUTPUT_WIDTH = 900"

definition OUTPUT_HEIGHT :: nat where
  "OUTPUT_HEIGHT = 1200"

definition clamp :: "'a::linorder \<Rightarrow> 'a \<Rightarrow> 'a \<Rightarrow> 'a" where
  "clamp val mn mx = min mx (max mn val)"

subsection \<open>Tone curve helpers\<close>

definition contrastTransform :: "real \<Rightarrow> real \<Rightarrow> real" where
  "contrastTransform val contrast =
     (let factor = (259 * (contrast + 255)) / (255 * (259 - contrast))
      in clamp (factor * (val - 128) + 128) 0 255)"

text \<open>The two arms of the conditional in \<open>softLight\<close>, on the normalised base and blend.\<close>

definition softLightLow :: "real \<Rightarrow> real \<Rightarrow> real" where
  "softLightLow b c = 2 * b * c + b * b * (1 - 2 * c)"

definition softLightHigh :: "real \<Rightarrow> real \<Rightarrow> real" where
  "softLightHigh b c = 2 * b * (1 - c) + sqrt b * (2 * c - 1)"

definition softLight :: "real \<Rightarrow> real \<Rightarrow> real" where
  "softLight base blend =
     (let b = base / 255;
          c = blend / 255;
          result = (if c < 0.5 then softLightLow b c else softLightHigh b c)
      in clamp (result * 255) 0 255)"

subsection \<open>Sobel gradient magnitude\<close>

definition kernelX :: "real list" where
  "kernelX = [-1, 0, 1, -2, 0, 2, -1, 0, 1]"

definition kernelY :: "real list" where
  "kernelY = [-1, -2, -1, 0, 0, 0, 1, 2, 1]"

text \<open>
  The two inner loops of \<open>applySobel\<close> at pixel \<open>(x, y)\<close>: the state is
  \<open>(gx, gy, idx)\<close>, started at \<open>(0, 0, 0)\<close>.
\<close>

definition sobelGradient :: "real list \<Rightarrow> nat \<Rightarrow> nat \<Rightarrow> nat \<Rightarrow> real \<times> real \<times> nat" where
  "sobelGradient mp width y x =
     fold (\<lambda>ky. fold (\<lambda>kx (gx, gy, idx).
             let sample = mp ! nat ((int y + ky) * int width + (int x + kx))
             in (gx + sample * kernelX ! idx, gy + sample * kernelY ! idx, idx + 1))
           [-1..1])
       [-1..1] (0, 0, 0)"

definition applySobel :: "real list \<Rightarrow> nat \<Rightarrow> nat \<Rightarrow> real list" where
  "applySobel mp width height =
     fold (\<lambda>y. fold (\<lambda>x result.
             let (gx, gy, idx) = sobelGradient mp width y x;
                 magnitude = sqrt (gx * gx + gy * gy)
             in result[y * width + x := magnitude])
           [1..<width - 1])
       [1..<height - 1] (replicate (length mp) 0)"

text \<open>The magnitude \<open>applySobel\<close> stores at pixel \<open>(x, y)\<close> of the interior.\<close>

definition sobelMagnitude :: "real list \<Rightarrow> nat \<Rightarrow> nat \<Rightarrow> nat \<Rightarrow> real" where
  "sobelMagnitude mp width y x =
     (let (gx, gy, idx) = sobelGradient mp width y x in sqrt (gx * gx + gy * gy))"

subsection \<open>Gaussian blur\<close>

text \<open>The kernel: the first loop fills it and sums it, the second divides by the sum.\<close>

definition gaussKernel :: "int \<Rightarrow> real list" where
  "gaussKernel radius =
     (let kernelSize = nat (radius * 2 + 1);
          (kern, kernelSum) =
             fold (\<lambda>i (kern, kernelSum).
                     let x = int i - radius;
                         val = exp (- real_of_int (x * x) / real_of_int (2 * radius * radius))
                     in (kern[i := val], kernelSum + val))
               [0..<kernelSize] (replicate kernelSize 0, 0)
      in fold (\<lambda>i kern. kern[i := kern ! i / kernelSum]) [0..<kernelSize] kern)"

text \<open>The value the first kernel loop stores at index \<open>i\<close>, before normalisation.\<close>

definition kernelValue :: "int \<Rightarrow> nat \<Rightarrow> real" where
  "kernelValue radius i =
     (let x = int i - radius
      in exp (- real_of_int (x * x) / real_of_int (2 * radius * radius)))"

text \<open>The innermost loop of the horizontal pass at \<open>(x, y)\<close>.\<close>

definition accumHorizontal :: "real list \<Rightarrow> real list \<Rightarrow> nat \<Rightarrow> int \<Rightarrow> nat \<Rightarrow> nat \<Rightarrow> real" where
  "accumHorizontal source kern width radius y x =
     fold (\<lambda>k accum.
             let sampleX = clamp (int x + k) 0 (int width - 1)
             in accum + source ! nat (int y * int width + sampleX) * kern ! nat (k + radius))
       [- radius..radius] 0"

text \<open>The innermost loop of the vertical pass at \<open>(x, y)\<close>.\<close>

definition accumVertical :: "real list \<Rightarrow> real list \<Rightarrow> nat \<Rightarrow> nat \<Rightarrow> int \<Rightarrow> nat \<Rightarrow> nat \<Rightarrow> real" where
  "accumVertical horizontal kern width height radius y x =
     fold (\<lambda>k accum.
             let sampleY = clamp (int y + k) 0 (int height - 1)
             in accum + horizontal ! nat (sampleY * int width + int x) * kern ! nat (k + radius))
       [- radius..radius] 0"

definition blurHorizontal :: "real list \<Rightarrow> real list \<Rightarrow> nat \<Rightarrow> nat \<Rightarrow> int \<Rightarrow> real list" where
  "blurHorizontal source kern width height radius =
     fold (\<lambda>y. fold (\<lambda>x horizontal.
             horizontal[y * width + x := accumHorizontal source kern width radius y x])
           [0..<width])
       [0..<height] (replicate (length source) 0)"

definition blurVertical :: "real list \<Rightarrow> real list \<Rightarrow> nat \<Rightarrow> nat \<Rightarrow> int \<Rightarrow> real list" where
  "blurVertical horizontal kern width height radius =
     fold (\<lambda>x. fold (\<lambda>y vertical.
             vertical[y * width + x := accumVertical horizontal kern width height radius y x])
           [0..<height])
       [0..<width] (replicate (length horizontal) 0)"

definition gaussianBlur :: "real list \<Rightarrow> nat \<Rightarrow> nat \<Rightarrow> int \<Rightarrow> real list" where
  "gaussianBlur source width height radius =
     (if radius \<le> 0 then source
      else let kern = gaussKernel radius;
               horizontal = blurHorizontal source kern width height radius;
               vertical = blurVertical horizontal kern width height radius
           in vertical)"

subsection \<open>Normalisation\<close>

text \<open>
  The running minimum and maximum start at \<open>Number.POSITIVE_INFINITY\<close> and
  \<open>Number.NEGATIVE_INFINITY\<close>; \<open>bound\<close> adds the two infinities to the reals, with the
  comparisons of a finite sample against a bound.
\<close>

datatype bound = NegInf | Fin real | PosInf

fun ltBound :: "real \<Rightarrow> bound \<Rightarrow> bool" where
  "ltBound v PosInf = True"
| "ltBound v (Fin m) = (v < m)"
| "ltBound v NegInf = False"

fun gtBound :: "real \<Rightarrow> bound \<Rightarrow> bool" where
  "gtBound v NegInf = True"
| "gtBound v (Fin m) = (v > m)"
| "gtBound v PosInf = False"

text \<open>The first loop of \<open>normaliseArray\<close>: the state is \<open>(min, max)\<close>.\<close>

definition minMax :: "real list \<Rightarrow> bound \<times> bound" where
  "minMax source =
     fold (\<lambda>val (mn, mx).
             (if ltBound val mn then Fin val else mn, if gtBound val mx then Fin val else mx))
       source (PosInf, NegInf)"

text \<open>
  \<open>max - min || 1\<close>: the difference, or 1 when the difference is 0. Both bounds are
  finite once the array has a sample; on the empty array the second loop does not run
  and the result is the empty array.
\<close>

definition normaliseArray :: "real list \<Rightarrow> real list" where
  "normaliseArray source =
     (case minMax source of
        (Fin mn, Fin mx) \<Rightarrow>
          (let range = (if mx - mn = 0 then 1 else mx - mn)
           in fold (\<lambda>i target. target[i := (source ! i - mn) / range])
                [0..<length source] (replicate (length source) 0))
      | _ \<Rightarrow> [])"

subsection \<open>Crop planning\<close>

text \<open>
  Of a \<open>CanvasImageSource\<close> the crop only reads \<open>width\<close> and \<open>height\<close>, each of which
  the source may lack (then the output dimension stands in).
\<close>

record ImageSource =
  srcWidth :: "nat option"
  srcHeight :: "nat option"

record CropRegion =
  offsetX :: real
  offsetY :: real
  cropWidth :: real
  cropHeight :: real

text \<open>The values of \<open>cropWidth\<close> and \<open>cropHeight\<close> after the aspect branch, before zoom.\<close>

definition cropBeforeZoom :: "real \<Rightarrow> real \<Rightarrow> real \<Rightarrow> real \<times> real" where
  "cropBeforeZoom width height aspectRatio =
     (let ratio = width / height
      in if ratio > aspectRatio then (height * aspectRatio, height)
         else (width, width / aspectRatio))"

definition cropToAspect :: "'a ImageSource_scheme \<Rightarrow> real \<Rightarrow> real \<Rightarrow> CropRegion" where
  "cropToAspect source aspectRatio zoomFactor =
     (let width = (case srcWidth source of Some w \<Rightarrow> real w | None \<Rightarrow> real OUTPUT_WIDTH);
          height = (case srcHeight source of Some h \<Rightarrow> real h | None \<Rightarrow> real OUTPUT_HEIGHT);
          (cropWidth0, cropHeight0) = cropBeforeZoom width height aspectRatio;
          zoom = clamp zoomFactor 0 60 / 100 + 1;
          cropWidth1 = cropWidth0 / zoom;
          cropHeight1 = cropHeight0 / zoom;
          offsetX1 = (width - cropWidth1) / 2;
          offsetY1 = (height - cropHeight1) / 2
      in \<lparr>offsetX = offsetX1, offsetY = offsetY1,
          cropWidth = cropWidth1, cropHeight = cropHeight1\<rparr>)"

subsection \<open>The per-pixel pipeline of renderPlasterEffect\<close>

text \<open>
  \<open>data\<close> is the \<open>Uint8ClampedArray\<close> of \<open>getImageData\<close>: four bytes (red, green,
  blue, alpha) per pixel, each a number from 0 to 255.
\<close>

definition luminanceOf :: "nat list \<Rightarrow> nat \<Rightarrow> nat \<Rightarrow> real list" where
  "luminanceOf data width height =
     fold (\<lambda>j luminance.
             let i = 4 * j;
                 gray = real (data ! i) * 0.299 + real (data ! (i + 1)) * 0.587
                        + real (data ! (i + 2)) * 0.114;
                 index = i div 4
             in luminance[index := gray])
       [0..<(length data + 3) div 4] (replicate (width * height) 0)"

definition blurRadius :: "'a EffectSettings_scheme \<Rightarrow> int" where
  "blurRadius settings = round (clamp (smoothness settings) 0 100 / 18)"

definition smoothedOf :: "'a EffectSettings_scheme \<Rightarrow> real list \<Rightarrow> nat \<Rightarrow> nat \<Rightarrow> real list" where
  "smoothedOf settings luminance width height =
     gaussianBlur luminance width height (blurRadius settings)"

definition detailSourceOf :: "real list \<Rightarrow> real list \<Rightarrow> real list" where
  "detailSourceOf luminance smoothed =
     fold (\<lambda>i detailSource. detailSource[i := luminance ! i - smoothed ! i])
       [0..<length luminance] (replicate (length luminance) 0)"

definition detailStrength :: "'a EffectSettings_scheme \<Rightarrow> real" where
  "detailStrength settings = clamp (microDetail settings) 0 100 / 100"

definition depthStrength :: "'a EffectSettings_scheme \<Rightarrow> real" where
  "depthStrength settings = clamp (depth settings) 0 100 / 100"

definition sheenStrength :: "'a EffectSettings_scheme \<Rightarrow> real" where
  "sheenStrength settings = clamp (sheen settings) 0 100 / 100"

definition matteStrength :: "'a EffectSettings_scheme \<Rightarrow> real" where
  "matteStrength settings = clamp (matte settings) 0 100 / 100"

definition luminosityShift :: "'a EffectSettings_scheme \<Rightarrow> real" where
  "luminosityShift settings = (clamp (luminosity settings) (-50) 50 / 50) * 15"

text \<open>The \<open>micro\<close> term of the tone loop, from the normalised detail sample.\<close>

definition microOf :: "'a EffectSettings_scheme \<Rightarrow> real \<Rightarrow> real" where
  "microOf settings detailAt = (detailAt - 0.5) * 80 * detailStrength settings"

text \<open>
  The body of the tone loop at one pixel, from the samples \<open>smoothed[idx]\<close>,
  \<open>normalisedDetail[idx]\<close> and \<open>normalisedSobel[idx]\<close>; \<open>val\<close> is reassigned as in
  the source.
\<close>

definition toneValue :: "'a EffectSettings_scheme \<Rightarrow> real \<Rightarrow> real \<Rightarrow> real \<Rightarrow> real" where
  "toneValue settings smoothedAt detailAt sobelAt =
     (let val = smoothedAt;
          val = contrastTransform val (30 + depthStrength settings * 90);
          val = clamp (val + luminosityShift settings) 0 255;
          micro = microOf settings detailAt;
          val = clamp (val + micro) 0 255;
          contour = (sobelAt - 0.4) * 140 * depthStrength settings;
          val = clamp (val + contour) 0 255;
          val = (if val > 210
                 then let boost = (val - 210) * 0.8 * sheenStrength settings
                      in clamp (softLight val (val + boost)) 0 255
                 else val);
          val = (if val < 80
                 then let liftShadows = (80 - val) * 0.6 * matteStrength settings
                      in clamp (val + liftShadows) 0 255
                 else val)
      in val)"

text \<open>
  The body of the tone loop in three stages, in the order it runs: the value that reaches
  the micro-detail step (contrast curve and luminosity shift), the micro-detail step
  itself, and the steps after it (contour, highlights, shadows).
\<close>

definition preMicroValue :: "'a EffectSettings_scheme \<Rightarrow> real \<Rightarrow> real" where
  "preMicroValue settings smoothedAt =
     (let val = smoothedAt;
          val = contrastTransform val (30 + depthStrength settings * 90);
          val = clamp (val + luminosityShift settings) 0 255
      in val)"

definition microStep :: "'a EffectSettings_scheme \<Rightarrow> real \<Rightarrow> real \<Rightarrow> real" where
  "microStep settings val detailAt =
     (let micro = microOf settings detailAt
      in clamp (val + micro) 0 255)"

definition postMicroValue :: "'a EffectSettings_scheme \<Rightarrow> real \<Rightarrow> real \<Rightarrow> real" where
  "postMicroValue settings val sobelAt =
     (let contour = (sobelAt - 0.4) * 140 * depthStrength settings;
          val = clamp (val + contour) 0 255;
          val = (if val > 210
                 then let boost = (val - 210) * 0.8 * sheenStrength settings
                      in clamp (softLight val (val + boost)) 0 255
                 else val);
          val = (if val < 80
                 then let liftShadows = (80 - val) * 0.6 * matteStrength settings
                      in clamp (val + liftShadows) 0 255
                 else val)
      in val)"

text \<open>The settings the page starts with (\<open>defaultSettings\<close> of the page component).\<close>

definition defaultSettings :: EffectSettings where
  "defaultSettings =
     \<lparr>depth = 62, luminosity = 8, sheen = 68, matte = 40, smoothness = 32, microDetail = 48,
      backgroundLift = 72, macroZoom = 18, standHeight = 24, vignette = 36\<rparr>"

text \<open>
  A store into a \<open>Uint8ClampedArray\<close>: clamp to 0..255 and round to the nearest
  integer, a tie going to the even one.
\<close>

definition toUint8Clamped :: "real \<Rightarrow> nat" where
  "toUint8Clamped v =
     (if v \<le> 0 then 0
      else if v \<ge> 255 then 255
      else let f = \<lfloor>v\<rfloor>
           in if real_of_int f + 0.5 < v then nat (f + 1)
              else if v < real_of_int f + 0.5 then nat f
              else if even f then nat f else nat (f + 1))"

record Fields =
  smoothedField :: "real list"
  normalisedDetail :: "real list"
  normalisedSobel :: "real list"

text \<open>The scalar fields the tone loop reads, computed from the pixel data.\<close>

definition fieldsOf :: "'a EffectSettings_scheme \<Rightarrow> nat list \<Rightarrow> nat \<Rightarrow> nat \<Rightarrow> Fields" where
  "fieldsOf settings data width height =
     (let luminance = luminanceOf data width height;
          smoothed = smoothedOf settings luminance width height;
          detailSource = detailSourceOf luminance smoothed;
          sobelMap = applySobel smoothed width height
      in \<lparr>smoothedField = smoothed,
          normalisedDetail = normaliseArray detailSource,
          normalisedSobel = normaliseArray sobelMap\<rparr>)"

text \<open>The value the tone loop computes at pixel \<open>idx\<close>, before it is stored.\<close>

definition pixelValue :: "'a EffectSettings_scheme \<Rightarrow> Fields \<Rightarrow> nat \<Rightarrow> real" where
  "pixelValue settings flds idx =
     toneValue settings (smoothedField flds ! idx) (normalisedDetail flds ! idx)
       (normalisedSobel flds ! idx)"

text \<open>The tone loop: red, green and blue of each pixel are overwritten, alpha is kept.\<close>

definition toneMap :: "'a EffectSettings_scheme \<Rightarrow> nat list \<Rightarrow> nat \<Rightarrow> nat \<Rightarrow> nat list" where
  "toneMap settings data width height =
     (let flds = fieldsOf settings data width height
      in fold (\<lambda>j data.
                 let i = 4 * j;
                     idx = i div 4;
                     val = pixelValue settings flds idx
                 in data[i := toUint8Clamped val, i + 1 := toUint8Clamped val,
                         i + 2 := toUint8Clamped val])
           [0..<(length data + 3) div 4] data)"

subsection \<open>The drawing surface\<close>

text \<open>
  \<open>renderPlasterEffect\<close> draws through a \<open>CanvasRenderingContext2D\<close>. The context is
  modelled as explicit state: the pixel buffer of the 900 x 1200 surface (\<open>frame\<close>, the
  RGBA bytes \<open>getImageData (0, 0, width, height)\<close> returns and \<open>putImageData\<close> replaces),
  the drawing state the code assigns, and the stack of \<open>save\<close> / \<open>restore\<close>. The state the
  code never assigns (transform, clipping region, global alpha, shadows) is taken at its
  default and is not part of the model.

  A draw follows the drawing model of the canvas: the shape or the image is rendered on
  a transparent bitmap of the size of the surface, and that bitmap is composited, pixel
  by pixel, onto the surface with the current compositing operation. The compositing
  loop is \<open>compositeOnto\<close>. What the browser computes is not code of this repository and
  is a parameter, collected in \<open>Canvas2D\<close>: the bitmap a fill produces (\<open>rasteriseOp\<close>,
  from the drawing state and the rectangle), the bitmap an image produces (\<open>sampleOp\<close>,
  from the filter, the smoothing state, the source, the crop and the destination
  rectangle), the result of compositing one source pixel onto one surface pixel
  (\<open>blendOp\<close>), and \<open>clearRect\<close>.
\<close>

type_synonym Frame = "nat list"

type_synonym Pixel = "nat \<times> nat \<times> nat \<times> nat"

type_synonym Rect = "real \<times> real \<times> real \<times> real"

datatype Colour = Rgba nat nat nat real | Hex string

datatype GradientKind =
  LinearGradient real real real real
| RadialGradient real real real real real real

record Gradient =
  kind :: GradientKind
  stops :: "(real \<times> Colour) list"

datatype FillStyle = FillColour Colour | FillGradient Gradient

datatype CompositeOp = SourceOver | Multiply

record DrawState =
  fillStyle :: FillStyle
  globalCompositeOperation :: CompositeOp
  filter_css :: string
  imageSmoothingEnabled :: bool
  imageSmoothingQuality :: string

record Context = DrawState +
  frame :: Frame
  saved :: "DrawState list"

record 'src Canvas2D =
  clearRectOp :: "Rect \<Rightarrow> Frame \<Rightarrow> Frame"
  rasteriseOp :: "DrawState \<Rightarrow> Rect \<Rightarrow> Frame"
  sampleOp :: "string \<Rightarrow> bool \<Rightarrow> string \<Rightarrow> 'src \<Rightarrow> CropRegion \<Rightarrow> Rect \<Rightarrow> Frame"
  blendOp :: "CompositeOp \<Rightarrow> Pixel \<Rightarrow> Pixel \<Rightarrow> Pixel"

text \<open>Pixel \<open>j\<close> of a buffer of RGBA bytes, and channel \<open>k\<close> (0 to 3) of a pixel.\<close>

definition pixelAt :: "Frame \<Rightarrow> nat \<Rightarrow> Pixel" where
  "pixelAt f j = (f ! (4 * j), f ! (4 * j + 1), f ! (4 * j + 2), f ! (4 * j + 3))"

definition channelOf :: "Pixel \<Rightarrow> nat \<Rightarrow> nat" where
  "channelOf p k =
     (case p of (r, g, b, a) \<Rightarrow> if k = 0 then r else if k = 1 then g else if k = 2 then b else a)"

text \<open>
  The rendered bitmap \<open>raster\<close> is composited onto the surface \<open>f\<close>: every pixel of the
  result is the blend of the bitmap's pixel with the surface's pixel at the same place.
\<close>

definition compositeOnto :: "'src Canvas2D \<Rightarrow> CompositeOp \<Rightarrow> Frame \<Rightarrow> Frame \<Rightarrow> Frame" where
  "compositeOnto canvas op raster f =
     map (\<lambda>i. channelOf (blendOp canvas op (pixelAt raster (i div 4)) (pixelAt f (i div 4)))
                 (i mod 4))
       [0..<4 * (OUTPUT_WIDTH * OUTPUT_HEIGHT)]"

definition drawState :: "Context \<Rightarrow> DrawState" where
  "drawState ctx =
     \<lparr>fillStyle = fillStyle ctx, globalCompositeOperation = globalCompositeOperation ctx,
      filter_css = filter_css ctx, imageSmoothingEnabled = imageSmoothingEnabled ctx,
      imageSmoothingQuality = imageSmoothingQuality ctx\<rparr>"

definition save :: "Context \<Rightarrow> Context" where
  "save ctx = ctx\<lparr>saved := drawState ctx # saved ctx\<rparr>"

definition restore :: "Context \<Rightarrow> Context" where
  "restore ctx =
     (case saved ctx of
        [] \<Rightarrow> ctx
      | s # rest \<Rightarrow>
          ctx\<lparr>fillStyle := fillStyle s, globalCompositeOperation := globalCompositeOperation s,
              filter_css := filter_css s, imageSmoothingEnabled := imageSmoothingEnabled s,
              imageSmoothingQuality := imageSmoothingQuality s, saved := rest\<rparr>)"

definition clearRect :: "'src Canvas2D \<Rightarrow> Rect \<Rightarrow> Context \<Rightarrow> Context" where
  "clearRect canvas rect ctx = ctx\<lparr>frame := clearRectOp canvas rect (frame ctx)\<rparr>"

definition fillRect :: "'src Canvas2D \<Rightarrow> Rect \<Rightarrow> Context \<Rightarrow> Context" where
  "fillRect canvas rect ctx =
     ctx\<lparr>frame := compositeOnto canvas (globalCompositeOperation ctx)
                      (rasteriseOp canvas (drawState ctx) rect) (frame ctx)\<rparr>"

definition drawImage :: "'src Canvas2D \<Rightarrow> 'src \<Rightarrow> CropRegion \<Rightarrow> Rect \<Rightarrow> Context \<Rightarrow> Context" where
  "drawImage canvas source crop dest ctx =
     ctx\<lparr>frame := compositeOnto canvas (globalCompositeOperation ctx)
                      (sampleOp canvas (filter_css ctx) (imageSmoothingEnabled ctx)
                         (imageSmoothingQuality ctx) source crop dest)
                      (frame ctx)\<rparr>"

definition getImageData :: "Context \<Rightarrow> Frame" where
  "getImageData ctx = frame ctx"

definition putImageData :: "Frame \<Rightarrow> Context \<Rightarrow> Context" where
  "putImageData data ctx = ctx\<lparr>frame := data\<rparr>"

definition createLinearGradient :: "real \<Rightarrow> real \<Rightarrow> real \<Rightarrow> real \<Rightarrow> Gradient" where
  "createLinearGradient x0 y0 x1 y1 = \<lparr>kind = LinearGradient x0 y0 x1 y1, stops = []\<rparr>"

definition createRadialGradient :: "real \<Rightarrow> real \<Rightarrow> real \<Rightarrow> real \<Rightarrow> real \<Rightarrow> real \<Rightarrow> Gradient" where
  "createRadialGradient x0 y0 r0 x1 y1 r1 = \<lparr>kind = RadialGradient x0 y0 r0 x1 y1 r1, stops = []\<rparr>"

definition addColorStop :: "Gradient \<Rightarrow> real \<Rightarrow> Colour \<Rightarrow> Gradient" where
  "addColorStop gradient offset colour = gradient\<lparr>stops := stops gradient @ [(offset, colour)]\<rparr>"

subsection \<open>Opaque sources\<close>

text \<open>
  An image source whose pixels are known: besides \<open>width\<close> and \<open>height\<close> it carries its
  RGBA bytes, row by row. It is fully opaque when it has a positive width and height,
  one pixel of four bytes for each position, and alpha 255 at every pixel.
\<close>

record PixelSource = ImageSource +
  srcData :: "nat list"

definition opaqueSource :: "'a PixelSource_scheme \<Rightarrow> bool" where
  "opaqueSource src =
     (case (srcWidth src, srcHeight src) of
        (Some w, Some h) \<Rightarrow>
          0 < w \<and> 0 < h \<and> length (srcData src) = 4 * (w * h)
          \<and> list_all (\<lambda>j. srcData src ! (4 * j + 3) = 255) [0..<w * h]
      | _ \<Rightarrow> False)"

text \<open>A crop rectangle of positive size that lies within the bounds of the source.\<close>

definition cropWithin :: "'a ImageSource_scheme \<Rightarrow> CropRegion \<Rightarrow> bool" where
  "cropWithin src crop =
     (case (srcWidth src, srcHeight src) of
        (Some w, Some h) \<Rightarrow>
          0 \<le> offsetX crop \<and> 0 \<le> offsetY crop \<and> 0 < cropWidth crop \<and> 0 < cropHeight crop
          \<and> offsetX crop + cropWidth crop \<le> real w \<and> offsetY crop + cropHeight crop \<le> real h
      | _ \<Rightarrow> False)"

text \<open>A bitmap of the size of the surface with alpha 255 at every pixel.\<close>

definition opaqueRaster :: "Frame \<Rightarrow> bool" where
  "opaqueRaster f =
     (length f = 4 * (OUTPUT_WIDTH * OUTPUT_HEIGHT)
      \<and> list_all (\<lambda>j. f ! (4 * j + 3) = 255) [0..<OUTPUT_WIDTH * OUTPUT_HEIGHT])"

subsection \<open>renderPlasterEffect\<close>

text \<open>
  The render, block by block in source order. Each block takes the context and returns
  it updated; \<open>renderPlasterEffect\<close> chains them.
\<close>

text \<open>\<open>save\<close>, \<open>clearRect\<close> and the background gradient driven by \<open>backgroundLift\<close>.\<close>

definition paintBackground :: "'s Canvas2D \<Rightarrow> 'e EffectSettings_scheme \<Rightarrow> Context \<Rightarrow> Context" where
  "paintBackground canvas settings ctx =
     (let width = real OUTPUT_WIDTH;
          height = real OUTPUT_HEIGHT;
          ctx = save ctx;
          ctx = clearRect canvas (0, 0, width, height) ctx;
          background = createLinearGradient 0 0 0 height;
          lift = clamp (backgroundLift settings) 0 100 / 100;
          background = addColorStop background 0 (Rgba 250 250 247 (0.85 + lift * 0.1));
          background = addColorStop background 1 (Rgba 242 242 236 (0.9 + lift * 0.08));
          ctx = ctx\<lparr>fillStyle := FillGradient background\<rparr>
      in fillRect canvas (0, 0, width, height) ctx)"

text \<open>The source, cropped and scaled over the whole frame.\<close>

definition paintSource ::
  "'s ImageSource_scheme Canvas2D \<Rightarrow> 's ImageSource_scheme \<Rightarrow> 'e EffectSettings_scheme
     \<Rightarrow> Context \<Rightarrow> Context" where
  "paintSource canvas source settings ctx =
     (let width = real OUTPUT_WIDTH;
          height = real OUTPUT_HEIGHT;
          crop = cropToAspect source (width / height) (macroZoom settings);
          ctx = ctx\<lparr>filter_css := ''none''\<rparr>;
          ctx = ctx\<lparr>imageSmoothingEnabled := True\<rparr>;
          ctx = ctx\<lparr>imageSmoothingQuality := ''high''\<rparr>
      in drawImage canvas source crop (0, 0, width, height) ctx)"

text \<open>The tone-mapped buffer is read from the surface and written back over it.\<close>

definition toneFrame :: "'e EffectSettings_scheme \<Rightarrow> Context \<Rightarrow> Context" where
  "toneFrame settings ctx =
     (let data = getImageData ctx;
          data = toneMap settings data OUTPUT_WIDTH OUTPUT_HEIGHT
      in putImageData data ctx)"

definition paintVignette :: "'s Canvas2D \<Rightarrow> 'e EffectSettings_scheme \<Rightarrow> Context \<Rightarrow> Context" where
  "paintVignette canvas settings ctx =
     (let width = real OUTPUT_WIDTH;
          height = real OUTPUT_HEIGHT;
          vignetteStrength = clamp (vignette settings) 0 100 / 100
      in if vignetteStrength > 0
         then let gradient = createRadialGradient (width / 2) (height * 0.55) (width * 0.25)
                               (width / 2) (height * 0.55) (max width height * 0.7);
                  gradient = addColorStop gradient 0 (Rgba 255 255 255 0);
                  gradient = addColorStop gradient 1 (Rgba 210 210 205 (0.35 * vignetteStrength));
                  ctx = ctx\<lparr>fillStyle := FillGradient gradient\<rparr>
              in fillRect canvas (0, 0, width, height) ctx
         else ctx)"

text \<open>The pedestal and its multiplied side shadow.\<close>

definition paintStand :: "'s Canvas2D \<Rightarrow> 'e EffectSettings_scheme \<Rightarrow> Context \<Rightarrow> Context" where
  "paintStand canvas settings ctx =
     (let width = real OUTPUT_WIDTH;
          height = real OUTPUT_HEIGHT;
          standPercent = clamp (standHeight settings) 10 45 / 100;
          standHeight1 = height * standPercent;
          standWidth = width * (0.36 + 0.08 * depthStrength settings);
          standX = width / 2 - standWidth / 2;
          standY = height - standHeight1;
          standGradient = createLinearGradient standX standY standX (standY + standHeight1);
          standGradient = addColorStop standGradient 0 (Hex ''#ffffff'');
          standGradient = addColorStop standGradient 0.5 (Hex ''#f3f3f1'');
          standGradient = addColorStop standGradient 1 (Hex ''#e4e4df'');
          ctx = ctx\<lparr>fillStyle := FillGradient standGradient\<rparr>;
          ctx = fillRect canvas (standX, standY, standWidth, standHeight1) ctx;
          standShadow = createLinearGradient standX standY (standX + standWidth)
                          (standY + standHeight1);
          standShadow = addColorStop standShadow 0 (Rgba 0 0 0 0.12);
          standShadow = addColorStop standShadow 0.25 (Rgba 0 0 0 0.05);
          standShadow = addColorStop standShadow 0.75 (Rgba 0 0 0 0.02);
          standShadow = addColorStop standShadow 1 (Rgba 0 0 0 0.14);
          ctx = ctx\<lparr>globalCompositeOperation := Multiply\<rparr>;
          ctx = ctx\<lparr>fillStyle := FillGradient standShadow\<rparr>;
          ctx = fillRect canvas (standX, standY, standWidth, standHeight1) ctx
      in ctx\<lparr>globalCompositeOperation := SourceOver\<rparr>)"

text \<open>The contact shadow along the bottom edge, and the final \<open>restore\<close>.\<close>

definition paintBaseShadow :: "'s Canvas2D \<Rightarrow> Context \<Rightarrow> Context" where
  "paintBaseShadow canvas ctx =
     (let width = real OUTPUT_WIDTH;
          height = real OUTPUT_HEIGHT;
          basePad = height * 0.04;
          baseShadow = createLinearGradient 0 (height - basePad) 0 height;
          baseShadow = addColorStop baseShadow 0 (Rgba 0 0 0 0.18);
          baseShadow = addColorStop baseShadow 0.7 (Rgba 0 0 0 0.05);
          baseShadow = addColorStop baseShadow 1 (Rgba 0 0 0 0);
          ctx = ctx\<lparr>fillStyle := FillGradient baseShadow\<rparr>;
          ctx = fillRect canvas (0, height - basePad, width, basePad) ctx
      in restore ctx)"

definition renderPlasterEffect ::
  "'s ImageSource_scheme Canvas2D \<Rightarrow> 's ImageSource_scheme \<Rightarrow> Context
     \<Rightarrow> 'e EffectSettings_scheme \<Rightarrow> Context" where
  "renderPlasterEffect canvas source ctx settings =
     (let ctx = paintBackground canvas settings ctx;
          ctx = paintSource canvas source settings ctx;
          ctx = toneFrame settings ctx;
          ctx = paintVignette canvas settings ctx;
          ctx = paintStand canvas settings ctx
      in paintBaseShadow canvas ctx)"

subsection \<open>A reference surface\<close>

text \<open>
  An executable surface, to run the render on concrete inputs. It paints a fill flat, in
  the colour of the first stop of the gradient, on the pixels whose centre lies in the
  rectangle; it samples an image at the nearest source pixel, and paints nothing where
  the sample falls outside the source; it composites with the source-over rule on
  non-premultiplied bytes, and \<open>multiply\<close> blends the colour with the backdrop first.
\<close>

definition hexDigit :: "char \<Rightarrow> nat" where
  "hexDigit c =
     (let n = (of_char c :: nat)
      in if 48 \<le> n \<and> n \<le> 57 then n - 48
         else if 97 \<le> n \<and> n \<le> 102 then n - 87
         else if 65 \<le> n \<and> n \<le> 70 then n - 55
         else 0)"

definition colourPixel :: "Colour \<Rightarrow> Pixel" where
  "colourPixel c =
     (case c of
        Rgba r g b a \<Rightarrow> (r, g, b, toUint8Clamped (a * 255))
      | Hex s \<Rightarrow>
          (if length s = 7
           then (16 * hexDigit (s ! 1) + hexDigit (s ! 2), 16 * hexDigit (s ! 3) + hexDigit (s ! 4),
                 16 * hexDigit (s ! 5) + hexDigit (s ! 6), 255)
           else (0, 0, 0, 255)))"

definition stylePixel :: "FillStyle \<Rightarrow> Pixel" where
  "stylePixel style =
     (case style of
        FillColour c \<Rightarrow> colourPixel c
      | FillGradient g \<Rightarrow>
          (case stops g of
             [] \<Rightarrow> (0, 0, 0, 0)
           | stop # rest \<Rightarrow> colourPixel (snd stop)))"

text \<open>The centre of pixel \<open>(x, y)\<close> lies in the rectangle.\<close>

definition inRect :: "Rect \<Rightarrow> nat \<Rightarrow> nat \<Rightarrow> bool" where
  "inRect rect x y =
     (case rect of
        (rx, ry, rw, rh) \<Rightarrow>
          rx \<le> real x + 0.5 \<and> real x + 0.5 < rx + rw \<and> ry \<le> real y + 0.5 \<and> real y + 0.5 < ry + rh)"

text \<open>The bitmap whose pixel at column \<open>x\<close> and row \<open>y\<close> is \<open>p x y\<close>.\<close>

definition rasterOf :: "(nat \<Rightarrow> nat \<Rightarrow> Pixel) \<Rightarrow> Frame" where
  "rasterOf p =
     map (\<lambda>i. channelOf (p ((i div 4) mod OUTPUT_WIDTH) ((i div 4) div OUTPUT_WIDTH)) (i mod 4))
       [0..<4 * (OUTPUT_WIDTH * OUTPUT_HEIGHT)]"

definition flatFill :: "DrawState \<Rightarrow> Rect \<Rightarrow> Frame" where
  "flatFill st rect =
     rasterOf (\<lambda>x y. if inRect rect x y then stylePixel (fillStyle st) else (0, 0, 0, 0))"

definition sourcePixel :: "'a PixelSource_scheme \<Rightarrow> int \<Rightarrow> int \<Rightarrow> Pixel" where
  "sourcePixel src ix iy =
     (case (srcWidth src, srcHeight src) of
        (Some w, Some h) \<Rightarrow>
          if 0 \<le> ix \<and> ix < int w \<and> 0 \<le> iy \<and> iy < int h
          then pixelAt (srcData src) (nat iy * w + nat ix)
          else (0, 0, 0, 0)
      | _ \<Rightarrow> (0, 0, 0, 0))"

definition nearestSample :: "'a PixelSource_scheme \<Rightarrow> CropRegion \<Rightarrow> Rect \<Rightarrow> Frame" where
  "nearestSample src crop dest =
     (case dest of
        (dx, dy, dw, dh) \<Rightarrow>
          rasterOf (\<lambda>x y.
            if inRect dest x y
            then sourcePixel src
                   \<lfloor>offsetX crop + (real x + 0.5 - dx) / dw * cropWidth crop\<rfloor>
                   \<lfloor>offsetY crop + (real y + 0.5 - dy) / dh * cropHeight crop\<rfloor>
            else (0, 0, 0, 0)))"

definition overAlpha :: "nat \<Rightarrow> nat \<Rightarrow> nat" where
  "overAlpha as ab = as + ab * (255 - as) div 255"

definition overChannel :: "nat \<Rightarrow> nat \<Rightarrow> nat \<Rightarrow> nat \<Rightarrow> nat" where
  "overChannel cs as cb ab =
     (let ao = overAlpha as ab
      in if ao = 0 then 0 else (cs * as * 255 + cb * ab * (255 - as)) div (ao * 255))"

definition blendChannel :: "CompositeOp \<Rightarrow> nat \<Rightarrow> nat \<Rightarrow> nat \<Rightarrow> nat" where
  "blendChannel op cs cb ab =
     (case op of
        SourceOver \<Rightarrow> cs
      | Multiply \<Rightarrow> (cs * (255 - ab) + ab * (cs * cb div 255)) div 255)"

definition pixelBlend :: "CompositeOp \<Rightarrow> Pixel \<Rightarrow> Pixel \<Rightarrow> Pixel" where
  "pixelBlend op src dst =
     (case src of
        (rs, gs, bs, as) \<Rightarrow>
          (case dst of
             (rb, gb, bb, ab) \<Rightarrow>
               (overChannel (blendChannel op rs rb ab) as rb ab,
                overChannel (blendChannel op gs gb ab) as gb ab,
                overChannel (blendChannel op bs bb ab) as bb ab,
                overAlpha as ab)))"

definition clearPixels :: "Rect \<Rightarrow> Frame \<Rightarrow> Frame" where
  "clearPixels rect f =
     map (\<lambda>i. if inRect rect ((i div 4) mod OUTPUT_WIDTH) ((i div 4) div OUTPUT_WIDTH) then 0
               else f ! i)
       [0..<length f]"

definition nearestCanvas :: "PixelSource Canvas2D" where
  "nearestCanvas =
     \<lparr>clearRectOp = clearPixels, rasteriseOp = flatFill,
      sampleOp = (\<lambda>flt smoothing quality. nearestSample), blendOp = pixelBlend\<rparr>"

text \<open>
  Inputs for the reference surface: a 2 x 2 source with alpha 255 at every pixel, a 1 x 1
  fully transparent source, and a context as a new canvas hands it out (black fill style,
  source-over, no filter, a transparent surface).
\<close>

definition opaqueSample :: PixelSource where
  "opaqueSample =
     \<lparr>srcWidth = Some 2, srcHeight = Some 2,
      srcData = [200, 10, 10, 255, 10, 200, 10, 255, 10, 10, 200, 255, 90, 90, 90, 255]\<rparr>"

definition transparentSample :: PixelSource where
  "transparentSample = \<lparr>srcWidth = Some 1, srcHeight = Some 1, srcData = [0, 0, 0, 0]\<rparr>"

definition freshContext :: Context where
  "freshContext =
     \<lparr>fillStyle = FillColour (Hex ''#000000''), globalCompositeOperation = SourceOver,
      filter_css = ''none'', imageSmoothingEnabled = True, imageSmoothingQuality = ''low'',
      frame = replicate (4 * (OUTPUT_WIDTH * OUTPUT_HEIGHT)) 0, saved = []\<rparr>"

section \<open>Properties\<close>

subsection \<open>Clamping\<close>

lemma clamp_bounds: "mn \<le> mx \<Longrightarrow> mn \<le> clamp v mn mx \<and> clamp v mn mx \<le> mx"
  by (simp add: clamp_def)

lemma clamp_mono: "v1 \<le> v2 \<Longrightarrow> clamp v1 mn mx \<le> clamp v2 mn mx"
  unfolding clamp_def by (intro min.mono max.mono) simp_all

lemma strength_range:
  fixes v :: real
  shows "0 \<le> clamp v 0 100 / 100 \<and> clamp v 0 100 / 100 \<le> 1"
  by (simp add: clamp_def)

subsection \<open>The contrast curve\<close>

lemma contrast_factor_pos:
  fixes c :: real
  assumes "30 \<le> c" "c \<le> 120"
  shows "0 < (259 * (c + 255)) / (255 * (259 - c))"
  using assms by (intro divide_pos_pos mult_pos_pos) simp_all

text \<open>The contrast parameter the tone loop passes lies between 30 and 120.\<close>

lemma contrast_parameter_range:
  "30 \<le> 30 + depthStrength settings * 90 \<and> 30 + depthStrength settings * 90 \<le> 120"
  using strength_range [of "depth settings"] by (simp add: depthStrength_def)

text \<open>
  C5. For a contrast parameter \<open>c\<close> with \<open>30 \<le> c \<le> 120\<close> (the values
  \<open>30 + 90 * depthStrength\<close> can take) \<open>contrastTransform\<close> is monotonically
  non-decreasing in its input value.
\<close>

theorem contrastTransform_monotone:
  assumes "30 \<le> c" and "c \<le> 120" and "v1 \<le> v2"
  shows "contrastTransform v1 c \<le> contrastTransform v2 c"
proof -
  define factor where "factor = (259 * (c + 255)) / (255 * (259 - c))"
  have "0 < factor"
    unfolding factor_def using assms(1,2) by (rule contrast_factor_pos)
  then have "factor * (v1 - 128) \<le> factor * (v2 - 128)"
    using assms(3) by (intro mult_left_mono) simp_all
  then have "clamp (factor * (v1 - 128) + 128) 0 255 \<le> clamp (factor * (v2 - 128) + 128) 0 255"
    by (intro clamp_mono) simp
  then show ?thesis
    by (simp only: contrastTransform_def Let_def factor_def)
qed

theorem contrastTransform_monotone_witness:
  "contrastTransform 100 (30 + depthStrength \<lparr>depth = 62, luminosity = 8, sheen = 68,
      matte = 40, smoothness = 32, microDetail = 48, backgroundLift = 72, macroZoom = 18,
      standHeight = 24, vignette = 36\<rparr> * 90)
   \<le> contrastTransform 200 (30 + depthStrength \<lparr>depth = 62, luminosity = 8, sheen = 68,
      matte = 40, smoothness = 32, microDetail = 48, backgroundLift = 72, macroZoom = 18,
      standHeight = 24, vignette = 36\<rparr> * 90)"
  using contrastTransform_monotone [of "30 + depthStrength \<lparr>depth = 62, luminosity = 8,
      sheen = 68, matte = 40, smoothness = 32, microDetail = 48, backgroundLift = 72,
      macroZoom = 18, standHeight = 24, vignette = 36\<rparr> * 90" 100 200]
  by (simp add: depthStrength_def clamp_def)

subsection \<open>The soft-light blend\<close>

text \<open>
  C6. At the blend value \<open>c = 0.5\<close> the two arms of the soft-light conditional agree:
  for a base \<open>b\<close> in \<open>[0, 1]\<close> both give \<open>b\<close>, and so does \<open>softLight\<close> itself
  (which takes the second arm there) on the 0..255 scale.
\<close>

theorem softLight_branches_agree:
  assumes "0 \<le> b" and "b \<le> 1"
  shows "softLightLow b (1/2) = b \<and> softLightHigh b (1/2) = b
         \<and> softLight (b * 255) (255 / 2) = b * 255"
  using assms by (simp add: softLightLow_def softLightHigh_def softLight_def clamp_def)

theorem softLight_branches_agree_witness:
  "softLightLow (1/4) (1/2) = 1/4 \<and> softLightHigh (1/4) (1/2) = 1/4
   \<and> softLight (1/4 * 255) (255 / 2) = 1/4 * 255"
  using softLight_branches_agree [of "1/4"] by simp

subsection \<open>The blur radius\<close>

text \<open>
  C7. \<open>gaussianBlur\<close> with radius 0 returns its input field, and the radius
  \<open>round (clamp smoothness 0 100 / 18)\<close> the render derives from the smoothness setting
  lies between 0 and 6, whatever the setting.
\<close>

theorem blur_radius_zero_identity:
  "gaussianBlur source width height 0 = source
   \<and> 0 \<le> blurRadius settings \<and> blurRadius settings \<le> 6"
proof -
  have a: "0 \<le> clamp (smoothness settings) 0 100 / 18"
    by (simp add: clamp_def)
  have b: "clamp (smoothness settings) 0 100 / 18 \<le> 100 / 18"
    by (simp add: clamp_def)
  have "round (0::real) \<le> blurRadius settings"
    unfolding blurRadius_def using a by (rule round_mono)
  moreover have "blurRadius settings \<le> round (100 / 18 :: real)"
    unfolding blurRadius_def using b by (rule round_mono)
  moreover have "round (100 / 18 :: real) = 6"
    by (rule round_unique) simp_all
  ultimately show ?thesis by (simp add: gaussianBlur_def)
qed

subsection \<open>Loops that fill an array\<close>

lemma fold_update_length [simp]:
  "length (fold (\<lambda>x a. a[g x := f x]) xs a) = length a"
  by (induction xs arbitrary: a) simp_all

lemma fold_update_miss:
  "i \<notin> g ` set xs \<Longrightarrow> fold (\<lambda>x a. a[g x := f x]) xs a ! i = a ! i"
  by (induction xs arbitrary: a) auto

lemma fold_update_hit:
  "distinct (map g xs) \<Longrightarrow> x \<in> set xs \<Longrightarrow> g x < length a
   \<Longrightarrow> fold (\<lambda>x a. a[g x := f x]) xs a ! g x = f x"
proof (induction xs arbitrary: a)
  case Nil
  then show ?case by simp
next
  case (Cons y ys)
  show ?case
  proof (cases "x \<in> set ys")
    case True
    with Cons show ?thesis by simp
  next
    case False
    with Cons.prems have "x = y" and "g y \<notin> g ` set ys" by auto
    with Cons.prems show ?thesis by (simp add: fold_update_miss)
  qed
qed

lemma fold_nested_pairs:
  "fold (\<lambda>y. fold (h y) xs) ys = fold (\<lambda>p. h (fst p) (snd p)) (List.product ys xs)"
  by (induction ys) (simp_all add: fold_map comp_def)

lemma grid_index_inj:
  fixes w :: nat
  assumes "x < w" and "x' < w" and "y * w + x = y' * w + x'"
  shows "y = y' \<and> x = x'"
proof -
  have "(x + y * w) div w = y" and "(x' + y' * w) div w = y'"
    using assms(1,2) by simp_all
  with assms(3) have "y = y'" by (simp add: add.commute)
  with assms(3) show ?thesis by simp
qed

lemma distinct_rows:
  fixes w :: nat
  assumes "distinct ys" and "distinct xs" and "\<And>x. x \<in> set xs \<Longrightarrow> x < w"
  shows "distinct (map (\<lambda>p. fst p * w + snd p) (List.product ys xs))"
proof -
  have "inj_on (\<lambda>p. fst p * w + snd p) (set (List.product ys xs))"
  proof (rule inj_onI)
    fix p q
    assume p: "p \<in> set (List.product ys xs)" and q: "q \<in> set (List.product ys xs)"
      and eq: "fst p * w + snd p = fst q * w + snd q"
    have "snd p < w" and "snd q < w" using p q assms(3) by auto
    then have "fst p = fst q \<and> snd p = snd q" using eq by (rule grid_index_inj)
    then show "p = q" by (simp add: prod_eq_iff)
  qed
  with assms show ?thesis by (simp add: distinct_map distinct_product)
qed

lemma distinct_columns:
  fixes w :: nat
  assumes "distinct ys" and "distinct xs" and "\<And>x. x \<in> set xs \<Longrightarrow> x < w"
  shows "distinct (map (\<lambda>p. snd p * w + fst p) (List.product xs ys))"
proof -
  have "inj_on (\<lambda>p. snd p * w + fst p) (set (List.product xs ys))"
  proof (rule inj_onI)
    fix p q
    assume p: "p \<in> set (List.product xs ys)" and q: "q \<in> set (List.product xs ys)"
      and eq: "snd p * w + fst p = snd q * w + fst q"
    have "fst p < w" and "fst q < w" using p q assms(3) by auto
    then have "snd p = snd q \<and> fst p = fst q" using eq by (rule grid_index_inj)
    then show "p = q" by (simp add: prod_eq_iff)
  qed
  with assms show ?thesis by (simp add: distinct_map distinct_product)
qed

lemma grid_index_bound:
  fixes w :: nat
  assumes "x < w" and "y < h"
  shows "y * w + x < w * h"
proof -
  have "y * w + x < y * w + w" using assms by simp
  also have "\<dots> = (Suc y) * w" by simp
  also have "\<dots> \<le> h * w" using assms by (intro mult_le_mono1) simp
  finally show ?thesis by (simp add: mult.commute)
qed

lemma fill_loop_map:
  "fold (\<lambda>i t. t[i := f i]) [0..<n] (replicate n z) = map f [0..<n]"
proof (rule nth_equalityI)
  show "length (fold (\<lambda>i t. t[i := f i]) [0..<n] (replicate n z)) = length (map f [0..<n])"
    by simp
next
  fix i assume "i < length (fold (\<lambda>i t. t[i := f i]) [0..<n] (replicate n z))"
  then have i: "i < n" by simp
  then have "fold (\<lambda>i t. t[i := f i]) [0..<n] (replicate n z) ! i = f i"
    using fold_update_hit [of "\<lambda>i. i" "[0..<n]" i "replicate n z" f] by simp
  with i show "fold (\<lambda>i t. t[i := f i]) [0..<n] (replicate n z) ! i = map f [0..<n] ! i"
    by simp
qed

subsection \<open>Normalisation\<close>

lemma minMax_step:
  "fold (\<lambda>val (mn, mx).
           (if ltBound val mn then Fin val else mn, if gtBound val mx then Fin val else mx))
     xs (Fin a, Fin b) = (Fin (fold min xs a), Fin (fold max xs b))"
proof (induction xs arbitrary: a b)
  case Nil
  then show ?case by simp
next
  case (Cons v vs)
  let ?step = "\<lambda>val (mn, mx).
           (if ltBound val mn then Fin val else mn, if gtBound val mx then Fin val else mx)"
  have "?step v (Fin a, Fin b) = (Fin (min v a), Fin (max v b))"
    by (auto simp: min_def max_def)
  then have "fold ?step (v # vs) (Fin a, Fin b) = fold ?step vs (Fin (min v a), Fin (max v b))"
    by simp
  also have "\<dots> = (Fin (fold min vs (min v a)), Fin (fold max vs (max v b)))"
    by (rule Cons.IH)
  finally show ?case by simp
qed

lemma minMax_nonempty:
  assumes "source \<noteq> []"
  shows "minMax source = (Fin (Min (set source)), Fin (Max (set source)))"
proof -
  from assms obtain v vs where s: "source = v # vs" by (cases source) auto
  have "minMax (v # vs) = (Fin (fold min vs v), Fin (fold max vs v))"
    unfolding minMax_def by (simp add: minMax_step)
  then show ?thesis
    unfolding s by (simp only: Min.set_eq_fold Max.set_eq_fold)
qed

lemma normaliseArray_map:
  assumes "source \<noteq> []"
  shows "normaliseArray source =
           map (\<lambda>v. (v - Min (set source)) /
                    (if Max (set source) - Min (set source) = 0 then 1
                     else Max (set source) - Min (set source))) source"
proof -
  have "map (\<lambda>i. (source ! i - mn) / r) [0..<length source] = map (\<lambda>v. (v - mn) / r) source"
    for mn r :: real
    by (rule nth_equalityI) simp_all
  then show ?thesis
    by (simp add: normaliseArray_def minMax_nonempty [OF assms] fill_loop_map Let_def)
qed

lemma normaliseArray_empty: "normaliseArray [] = []"
  by (simp add: normaliseArray_def minMax_def)

lemma normaliseArray_length [simp]: "length (normaliseArray source) = length source"
  by (cases "source = []") (simp_all add: normaliseArray_empty normaliseArray_map)

text \<open>
  C3. On a non-empty field \<open>normaliseArray\<close> returns a field whose minimum is 0 and
  whose maximum is 1, unless the input is constant (its maximum equals its minimum), in
  which case the returned field is all zeros.
\<close>

theorem normaliseArray_min_max:
  assumes "source \<noteq> []"
  shows "if Max (set source) = Min (set source)
         then normaliseArray source = replicate (length source) 0
         else Min (set (normaliseArray source)) = 0 \<and> Max (set (normaliseArray source)) = 1"
proof (cases "Max (set source) = Min (set source)")
  case True
  have "v = Min (set source)" if "v \<in> set source" for v
  proof -
    have "Min (set source) \<le> v" and "v \<le> Max (set source)"
      using that by simp_all
    with True show ?thesis by simp
  qed
  then have "map (\<lambda>v. (v - Min (set source)) / 1) source = map (\<lambda>v. 0) source"
    by (intro map_cong) simp_all
  with True show ?thesis
    by (simp add: normaliseArray_map [OF assms] map_replicate_const)
next
  case False
  define mn where "mn = Min (set source)"
  define mx where "mx = Max (set source)"
  define f where "f = (\<lambda>v. (v - mn) / (mx - mn))"
  have "mn \<le> mx" unfolding mn_def mx_def using assms by simp
  with False have pos: "0 < mx - mn" by (simp add: mn_def mx_def)
  have out: "normaliseArray source = map f source"
    using False by (simp add: normaliseArray_map [OF assms] f_def mn_def mx_def)
  have "mono f"
    unfolding f_def using pos by (intro monoI divide_right_mono) simp_all
  then have "Min (f ` set source) = f mn" and "Max (f ` set source) = f mx"
    unfolding mn_def mx_def using assms
    by (simp_all add: mono_Min_commute mono_Max_commute)
  moreover have "f mn = 0" and "f mx = 1"
    using pos by (simp_all add: f_def)
  ultimately show ?thesis using False by (simp add: out)
qed

theorem normaliseArray_min_max_witness:
  "Min (set (normaliseArray [3, 1, 2])) = 0 \<and> Max (set (normaliseArray [3, 1, 2])) = 1"
  using normaliseArray_min_max [of "[3, 1, 2]"] by simp

subsection \<open>Crop planning\<close>

lemma zoom_range:
  fixes z :: real
  shows "1 \<le> clamp z 0 60 / 100 + 1 \<and> clamp z 0 60 / 100 + 1 \<le> 8 / 5"
  by (simp add: clamp_def)

lemma zoomed_fits:
  fixes c :: real
  assumes "0 < c" and "c \<le> bnd" and "1 \<le> z"
  shows "0 < c / z \<and> c / z \<le> bnd"
proof -
  have "c / z \<le> c / 1"
    using assms by (intro divide_left_mono) simp_all
  with assms show ?thesis by simp
qed

lemma centred_fits:
  fixes c :: real
  assumes "0 < c" and "c \<le> bnd"
  shows "0 \<le> (bnd - c) / 2 \<and> (bnd - c) / 2 + c \<le> bnd"
  using assms by (simp add: field_simps)

lemma cropBeforeZoom_branch:
  assumes "0 < w" and "0 < h" and "0 < a"
  shows "if w / h > a
         then fst (cropBeforeZoom w h a) < w \<and> snd (cropBeforeZoom w h a) = h
         else fst (cropBeforeZoom w h a) = w \<and> snd (cropBeforeZoom w h a) \<le> h
              \<and> (w / h < a \<longrightarrow> snd (cropBeforeZoom w h a) < h)"
proof (cases "w / h > a")
  case True
  then have "h * a < w" using assms by (simp add: pos_less_divide_eq mult.commute)
  with True show ?thesis by (simp add: cropBeforeZoom_def)
next
  case False
  then have "w \<le> a * h" using assms by (simp add: pos_divide_le_eq not_less)
  then have le: "w / a \<le> h" using assms by (simp add: pos_divide_le_eq mult.commute)
  have "w / a < h" if "w / h < a"
  proof -
    from that have "w < a * h" using assms by (simp add: pos_divide_less_eq)
    then show ?thesis using assms by (simp add: pos_divide_less_eq mult.commute)
  qed
  with False le show ?thesis by (simp add: cropBeforeZoom_def)
qed

lemma cropBeforeZoom_fits:
  assumes "0 < w" and "0 < h" and "0 < a"
  shows "0 < fst (cropBeforeZoom w h a) \<and> fst (cropBeforeZoom w h a) \<le> w
         \<and> 0 < snd (cropBeforeZoom w h a) \<and> snd (cropBeforeZoom w h a) \<le> h
         \<and> fst (cropBeforeZoom w h a) / snd (cropBeforeZoom w h a) = a"
proof (cases "w / h > a")
  case True
  then have "h * a < w" using assms by (simp add: pos_less_divide_eq mult.commute)
  with True assms show ?thesis by (simp add: cropBeforeZoom_def)
next
  case False
  then have "w \<le> a * h" using assms by (simp add: pos_divide_le_eq not_less)
  then have "w / a \<le> h" using assms by (simp add: pos_divide_le_eq mult.commute)
  with False assms show ?thesis by (simp add: cropBeforeZoom_def)
qed

text \<open>
  C4. For a source of positive width and height, any zoom value and any positive target
  aspect ratio (the render passes \<open>OUTPUT_WIDTH / OUTPUT_HEIGHT\<close>), the rectangle
  \<open>cropToAspect\<close> returns lies within the source bounds and its width / height ratio is
  the target ratio. It is the pre-zoom rectangle divided by the zoom factor; before zoom,
  a source wider than the target has only its width reduced, and otherwise only the
  height can be reduced (strictly when the source is narrower than the target).
\<close>

theorem cropToAspect_region:
  fixes source :: "'a ImageSource_scheme"
  assumes "srcWidth source = Some w" and "srcHeight source = Some h"
    and "0 < w" and "0 < h" and "0 < aspectRatio"
  shows "let r = cropToAspect source aspectRatio zoomFactor;
             zoom = clamp zoomFactor 0 60 / 100 + 1;
             cw0 = fst (cropBeforeZoom (real w) (real h) aspectRatio);
             ch0 = snd (cropBeforeZoom (real w) (real h) aspectRatio)
         in 0 \<le> offsetX r \<and> 0 \<le> offsetY r \<and> 0 < cropWidth r \<and> 0 < cropHeight r
            \<and> offsetX r + cropWidth r \<le> real w \<and> offsetY r + cropHeight r \<le> real h
            \<and> cropWidth r / cropHeight r = aspectRatio
            \<and> cropWidth r = cw0 / zoom \<and> cropHeight r = ch0 / zoom
            \<and> (if real w / real h > aspectRatio then cw0 < real w \<and> ch0 = real h
               else cw0 = real w \<and> ch0 \<le> real h
                    \<and> (real w / real h < aspectRatio \<longrightarrow> ch0 < real h))"
proof -
  define zoom where "zoom = clamp zoomFactor 0 60 / 100 + 1"
  define cw0 where "cw0 = fst (cropBeforeZoom (real w) (real h) aspectRatio)"
  define ch0 where "ch0 = snd (cropBeforeZoom (real w) (real h) aspectRatio)"
  define r where "r = cropToAspect source aspectRatio zoomFactor"
  have w: "0 < real w" and h: "0 < real h" using assms by simp_all
  have zoom: "1 \<le> zoom" unfolding zoom_def using zoom_range [of zoomFactor] by simp
  have fits: "0 < cw0" "cw0 \<le> real w" "0 < ch0" "ch0 \<le> real h" "cw0 / ch0 = aspectRatio"
    unfolding cw0_def ch0_def using cropBeforeZoom_fits [OF w h assms(5)] by simp_all
  have r: "cropWidth r = cw0 / zoom" "cropHeight r = ch0 / zoom"
    "offsetX r = (real w - cw0 / zoom) / 2" "offsetY r = (real h - ch0 / zoom) / 2"
    unfolding r_def cw0_def ch0_def zoom_def
    by (simp_all add: cropToAspect_def assms(1,2) Let_def split_beta)
  have cw: "0 < cw0 / zoom" "cw0 / zoom \<le> real w"
    using zoomed_fits [OF fits(1,2) zoom] by simp_all
  have ch: "0 < ch0 / zoom" "ch0 / zoom \<le> real h"
    using zoomed_fits [OF fits(3,4) zoom] by simp_all
  have ratio: "(cw0 / zoom) / (ch0 / zoom) = aspectRatio"
    using fits(5) zoom by simp
  note cw ch ratio
  have branch: "if real w / real h > aspectRatio then cw0 < real w \<and> ch0 = real h
       else cw0 = real w \<and> ch0 \<le> real h \<and> (real w / real h < aspectRatio \<longrightarrow> ch0 < real h)"
    unfolding cw0_def ch0_def by (rule cropBeforeZoom_branch [OF w h assms(5)])
  have main: "0 \<le> offsetX r \<and> 0 \<le> offsetY r \<and> 0 < cropWidth r \<and> 0 < cropHeight r
            \<and> offsetX r + cropWidth r \<le> real w \<and> offsetY r + cropHeight r \<le> real h
            \<and> cropWidth r / cropHeight r = aspectRatio
            \<and> cropWidth r = cw0 / zoom \<and> cropHeight r = ch0 / zoom"
  proof -
    define cw1 where "cw1 = cw0 / zoom"
    define ch1 where "ch1 = ch0 / zoom"
    have "0 \<le> (real w - cw1) / 2 \<and> 0 \<le> (real h - ch1) / 2 \<and> 0 < cw1 \<and> 0 < ch1
            \<and> (real w - cw1) / 2 + cw1 \<le> real w \<and> (real h - ch1) / 2 + ch1 \<le> real h"
      using cw ch centred_fits [OF cw] centred_fits [OF ch]
      unfolding cw1_def [symmetric] ch1_def [symmetric] by simp
    then show ?thesis
      unfolding r cw1_def ch1_def using ratio by simp
  qed
  show ?thesis
    unfolding Let_def using main branch unfolding r_def cw0_def ch0_def zoom_def by blast
qed

theorem cropToAspect_region_witness:
  "let r = cropToAspect \<lparr>srcWidth = Some 1600, srcHeight = Some 1200\<rparr> (3 / 4) 18
   in 0 \<le> offsetX r \<and> 0 \<le> offsetY r \<and> 0 < cropWidth r \<and> 0 < cropHeight r
      \<and> offsetX r + cropWidth r \<le> 1600 \<and> offsetY r + cropHeight r \<le> 1200
      \<and> cropWidth r / cropHeight r = 3 / 4
      \<and> cropHeight r = 1200 / (118 / 100) \<and> cropWidth r < 1600 / (118 / 100)"
  using cropToAspect_region [of "\<lparr>srcWidth = Some 1600, srcHeight = Some 1200\<rparr>"
      1600 1200 "3 / 4" 18]
  by (simp add: Let_def clamp_def cropBeforeZoom_def)

subsection \<open>Gaussian blur\<close>

lemma blurHorizontal_length [simp]:
  "length (blurHorizontal source kern width height radius) = length source"
  by (simp add: blurHorizontal_def fold_nested_pairs)

lemma blurVertical_length [simp]:
  "length (blurVertical horizontal kern width height radius) = length horizontal"
  by (simp add: blurVertical_def fold_nested_pairs)

lemma blurHorizontal_nth:
  assumes "length source = width * height" and "x < width" and "y < height"
  shows "blurHorizontal source kern width height radius ! (y * width + x)
           = accumHorizontal source kern width radius y x"
proof -
  let ?g = "\<lambda>p. fst p * width + snd p"
  let ?f = "\<lambda>p. accumHorizontal source kern width radius (fst p) (snd p)"
  have "fold (\<lambda>p a. a[?g p := ?f p]) (List.product [0..<height] [0..<width])
          (replicate (length source) 0) ! ?g (y, x) = ?f (y, x)"
    using assms by (intro fold_update_hit distinct_rows) (simp_all add: grid_index_bound)
  then show ?thesis by (simp add: blurHorizontal_def fold_nested_pairs)
qed

lemma blurVertical_nth:
  assumes "length horizontal = width * height" and "x < width" and "y < height"
  shows "blurVertical horizontal kern width height radius ! (y * width + x)
           = accumVertical horizontal kern width height radius y x"
proof -
  let ?g = "\<lambda>p. snd p * width + fst p"
  let ?f = "\<lambda>p. accumVertical horizontal kern width height radius (snd p) (fst p)"
  have "fold (\<lambda>p a. a[?g p := ?f p]) (List.product [0..<width] [0..<height])
          (replicate (length horizontal) 0) ! ?g (x, y) = ?f (x, y)"
    using assms by (intro fold_update_hit distinct_columns) (simp_all add: grid_index_bound)
  then show ?thesis by (simp add: blurVertical_def fold_nested_pairs)
qed

subsection \<open>Sobel gradient magnitude\<close>

lemma sobelGradient_unfold:
  "sobelGradient mp width y x =
     (let s = (\<lambda>ky kx. mp ! nat ((int y + ky) * int width + (int x + kx)))
      in (s (-1) 1 + 2 * s 0 1 + s 1 1 - (s (-1) (-1) + 2 * s 0 (-1) + s 1 (-1)),
          s 1 (-1) + 2 * s 1 0 + s 1 1 - (s (-1) (-1) + 2 * s (-1) 0 + s (-1) 1),
          9))"
  by (simp add: sobelGradient_def kernelX_def kernelY_def Let_def upto_rec1 [of "-1" 1] upto_rec1 [of 0 1])

lemma neighbour_index:
  assumes "0 \<le> int y + ky" and "0 \<le> int x + kx"
  shows "nat ((int y + ky) * int width + (int x + kx)) = nat (int y + ky) * width + nat (int x + kx)"
  using assms by (simp add: nat_add_distrib nat_mult_distrib)

lemma sobelGradient_interior:
  assumes "0 < x" and "0 < y"
  shows "sobelGradient mp width y x =
     (let p = (\<lambda>r c. mp ! (r * width + c))
      in (p (y - 1) (x + 1) + 2 * p y (x + 1) + p (y + 1) (x + 1)
            - (p (y - 1) (x - 1) + 2 * p y (x - 1) + p (y + 1) (x - 1)),
          p (y + 1) (x - 1) + 2 * p (y + 1) x + p (y + 1) (x + 1)
            - (p (y - 1) (x - 1) + 2 * p (y - 1) x + p (y - 1) (x + 1)),
          9))"
proof -
  have m: "nat (int y + - 1) = y - 1" "nat (int x + - 1) = x - 1"
    "nat (int y + 1) = y + 1" "nat (int x + 1) = x + 1" "nat (int y + 0) = y" "nat (int x + 0) = x"
    by simp_all
  have idx: "nat ((int y + ky) * int width + (int x + kx)) = nat (int y + ky) * width + nat (int x + kx)"
    if "ky \<in> {-1, 0, 1}" and "kx \<in> {-1, 0, 1}" for ky kx
    using that assms by (intro neighbour_index) auto
  show ?thesis
    unfolding sobelGradient_unfold Let_def by (simp only: idx m insertI1 insertI2)
qed

lemma applySobel_pairs:
  "applySobel mp width height =
     fold (\<lambda>p a. a[fst p * width + snd p := sobelMagnitude mp width (fst p) (snd p)])
       (List.product [1..<height - 1] [1..<width - 1]) (replicate (length mp) 0)"
  by (simp add: applySobel_def fold_nested_pairs sobelMagnitude_def Let_def split_beta)

lemma applySobel_length [simp]: "length (applySobel mp width height) = length mp"
  by (simp add: applySobel_pairs)

lemma applySobel_interior:
  assumes "length mp = width * height"
    and "0 < x" and "x < width - 1" and "0 < y" and "y < height - 1"
  shows "applySobel mp width height ! (y * width + x) = sobelMagnitude mp width y x"
proof -
  let ?g = "\<lambda>p. fst p * width + snd p"
  let ?f = "\<lambda>p. sobelMagnitude mp width (fst p) (snd p)"
  have "x < width" and "y < height" using assms by simp_all
  then have "y * width + x < length mp" using assms(1) by (simp add: grid_index_bound)
  then have "fold (\<lambda>p a. a[?g p := ?f p]) (List.product [1..<height - 1] [1..<width - 1])
          (replicate (length mp) 0) ! ?g (y, x) = ?f (y, x)"
    using assms by (intro fold_update_hit distinct_rows) auto
  then show ?thesis by (simp add: applySobel_pairs)
qed

lemma applySobel_border:
  assumes "length mp = width * height" and "x < width" and "y < height"
    and "\<not> (0 < x \<and> x < width - 1 \<and> 0 < y \<and> y < height - 1)"
  shows "applySobel mp width height ! (y * width + x) = 0"
proof -
  let ?g = "\<lambda>p. fst p * width + snd p"
  let ?ps = "List.product [1..<height - 1] [1..<width - 1]"
  have "y * width + x \<notin> ?g ` set ?ps"
  proof
    assume "y * width + x \<in> ?g ` set ?ps"
    then obtain p where p: "p \<in> set ?ps" and eq: "fst p * width + snd p = y * width + x"
      by auto
    from p have "snd p < width" by auto
    then have "fst p = y \<and> snd p = x" using assms(2) eq by (rule grid_index_inj)
    with p assms(4) show False by auto
  qed
  then have "fold (\<lambda>p a. a[?g p := sobelMagnitude mp width (fst p) (snd p)]) ?ps
          (replicate (length mp) 0) ! (y * width + x) = replicate (length mp) 0 ! (y * width + x)"
    by (rule fold_update_miss)
  then show ?thesis
    using assms(1-3) by (simp add: applySobel_pairs grid_index_bound)
qed

lemma sobelMagnitude_uniform:
  assumes "length mp = width * height" and "\<forall>v\<in>set mp. v = c"
    and "0 < x" and "x < width - 1" and "0 < y" and "y < height - 1"
  shows "sobelMagnitude mp width y x = 0"
proof -
  have c: "mp ! (r * width + k) = c" if "r < height" and "k < width" for r k
  proof -
    have "r * width + k < length mp" using that assms(1) by (simp add: grid_index_bound)
    then have "mp ! (r * width + k) \<in> set mp" by (rule nth_mem)
    with assms(2) show ?thesis by simp
  qed
  have v: "mp ! ((y - 1) * width + (x - 1)) = c" "mp ! ((y - 1) * width + x) = c"
    "mp ! ((y - 1) * width + (x + 1)) = c" "mp ! (y * width + (x - 1)) = c"
    "mp ! (y * width + (x + 1)) = c" "mp ! ((y + 1) * width + (x - 1)) = c"
    "mp ! ((y + 1) * width + x) = c" "mp ! ((y + 1) * width + (x + 1)) = c"
    using assms(3-6) by (intro c; simp)+
  show ?thesis
    unfolding sobelMagnitude_def sobelGradient_interior [OF assms(3,5)] Let_def v by simp
qed

text \<open>
  C8. On a field of \<open>width * height\<close> samples, \<open>applySobel\<close> leaves every pixel of
  the one-pixel border at zero; at an interior pixel its value is the gradient magnitude
  \<open>sqrt (gx\<^sup>2 + gy\<^sup>2)\<close> of the standard 3x3 Sobel kernels; and on a constant field
  the output is zero at every pixel, interior included.
\<close>

theorem applySobel_border_zero_uniform_zero:
  assumes "length mp = width * height" and "x < width" and "y < height"
  shows "(if 0 < x \<and> x < width - 1 \<and> 0 < y \<and> y < height - 1
          then applySobel mp width height ! (y * width + x) =
                 (let p = (\<lambda>r c. mp ! (r * width + c));
                      gx = p (y - 1) (x + 1) + 2 * p y (x + 1) + p (y + 1) (x + 1)
                            - (p (y - 1) (x - 1) + 2 * p y (x - 1) + p (y + 1) (x - 1));
                      gy = p (y + 1) (x - 1) + 2 * p (y + 1) x + p (y + 1) (x + 1)
                            - (p (y - 1) (x - 1) + 2 * p (y - 1) x + p (y - 1) (x + 1))
                  in sqrt (gx * gx + gy * gy))
          else applySobel mp width height ! (y * width + x) = 0)
         \<and> ((\<forall>v\<in>set mp. v = c) \<longrightarrow> applySobel mp width height ! (y * width + x) = 0)"
    (is "(if ?I then ?v = ?rhs else _) \<and> (?U \<longrightarrow> _)")
proof (cases ?I)
  case True
  then have i: "0 < x" "x < width - 1" "0 < y" "y < height - 1" by simp_all
  have m: "?v = sobelMagnitude mp width y x"
    using assms(1) i by (rule applySobel_interior)
  have val: "?v = ?rhs"
    unfolding m sobelMagnitude_def sobelGradient_interior [OF i(1,3)]
    by (simp only: Let_def prod.case)
  have zero: "?v = 0" if ?U
    unfolding m using assms(1) that i by (rule sobelMagnitude_uniform)
  show ?thesis
  proof (intro conjI impI)
    show "if ?I then ?v = ?rhs else ?v = 0"
      unfolding if_P [OF True] by (rule val)
    show "?v = 0" if ?U using that by (rule zero)
  qed
next
  case False
  with assms have z: "?v = 0" by (rule applySobel_border)
  show ?thesis
  proof (intro conjI impI)
    show "if ?I then ?v = ?rhs else ?v = 0"
      unfolding if_not_P [OF False] by (rule z)
    show "?v = 0" by (rule z)
  qed
qed

theorem applySobel_border_zero_uniform_zero_witness:
  "applySobel [1, 2, 3, 4, 5, 6, 7, 8, 10] 3 3 ! (1 * 3 + 1)
     = sqrt ((3 + 2 * 6 + 10 - (1 + 2 * 4 + 7)) * (3 + 2 * 6 + 10 - (1 + 2 * 4 + 7))
             + (7 + 2 * 8 + 10 - (1 + 2 * 2 + 3)) * (7 + 2 * 8 + 10 - (1 + 2 * 2 + 3)))
   \<and> applySobel [1, 2, 3, 4, 5, 6, 7, 8, 10] 3 3 ! (0 * 3 + 2) = 0
   \<and> applySobel [5, 5, 5, 5, 5, 5, 5, 5, 5] 3 3 ! (1 * 3 + 1) = 0"
  using applySobel_border_zero_uniform_zero [of "[1, 2, 3, 4, 5, 6, 7, 8, 10]" 3 3 1 1 0]
    applySobel_border_zero_uniform_zero [of "[1, 2, 3, 4, 5, 6, 7, 8, 10]" 3 3 2 0 0]
    applySobel_border_zero_uniform_zero [of "[5, 5, 5, 5, 5, 5, 5, 5, 5]" 3 3 1 1 5]
  by (simp add: Let_def)

subsection \<open>The Gaussian kernel\<close>

lemma fold_fill_and_sum:
  "fold (\<lambda>i (k, s). (k[i := v i], s + v i)) xs (k0, s0)
     = (fold (\<lambda>i k. k[i := v i]) xs k0, s0 + sum_list (map v xs))"
  by (induction xs arbitrary: k0 s0) (simp_all add: add.assoc)

lemma fold_rescale:
  "n \<le> length k \<Longrightarrow>
     fold (\<lambda>i k. k[i := k ! i / s]) [0..<n] k = map (\<lambda>v. v / s) (take n k) @ drop n k"
proof (induction n)
  case 0
  then show ?case by simp
next
  case (Suc n)
  then have n: "n < length k" by simp
  have "fold (\<lambda>i k. k[i := k ! i / s]) [0..<Suc n] k
          = (map (\<lambda>v. v / s) (take n k) @ drop n k)
              [n := (map (\<lambda>v. v / s) (take n k) @ drop n k) ! n / s]"
    using Suc by simp
  also have "(map (\<lambda>v. v / s) (take n k) @ drop n k) ! n = k ! n"
    using n by (simp add: nth_append)
  also have "(map (\<lambda>v. v / s) (take n k) @ drop n k)[n := k ! n / s]
          = map (\<lambda>v. v / s) (take n k) @ (drop n k)[0 := k ! n / s]"
    using n by (simp add: list_update_append)
  also have "(drop n k)[0 := k ! n / s] = (k ! n / s) # drop (Suc n) k"
    using n by (simp add: Cons_nth_drop_Suc [symmetric])
  finally show ?case
    using n by (simp add: take_Suc_conv_app_nth)
qed

lemma sum_list_map_upt: "sum_list (map f [0..<n]) = (\<Sum>i<n. f i)"
  by (simp add: interv_sum_list_conv_sum_set_nat atLeast0LessThan)

lemma gaussKernel_map:
  "gaussKernel radius =
     map (\<lambda>i. kernelValue radius i / (\<Sum>j<nat (radius * 2 + 1). kernelValue radius j))
       [0..<nat (radius * 2 + 1)]"
proof -
  define n where "n = nat (radius * 2 + 1)"
  define s where "s = (\<Sum>j<n. kernelValue radius j)"
  have body: "(\<lambda>i (kern, kernelSum).
                 let x = int i - radius;
                     val = exp (- real_of_int (x * x) / real_of_int (2 * radius * radius))
                 in (kern[i := val], kernelSum + val))
              = (\<lambda>i (k, s). (k[i := kernelValue radius i], s + kernelValue radius i))"
    by (simp add: fun_eq_iff kernelValue_def Let_def)
  have "gaussKernel radius = fold (\<lambda>i k. k[i := k ! i / s]) [0..<n] (map (kernelValue radius) [0..<n])"
    unfolding gaussKernel_def body n_def [symmetric]
    by (simp add: Let_def fold_fill_and_sum fill_loop_map sum_list_map_upt s_def)
  also have "\<dots> = map (\<lambda>v. v / s) (map (kernelValue radius) [0..<n])"
    by (simp add: fold_rescale)
  finally show ?thesis
    unfolding n_def s_def by (simp add: comp_def)
qed

lemma kernelValue_pos: "0 < kernelValue radius i"
  by (simp add: kernelValue_def Let_def)

lemma kernelSum_pos:
  assumes "0 < radius"
  shows "0 < (\<Sum>j<nat (radius * 2 + 1). kernelValue radius j)"
proof -
  have "0 < nat (radius * 2 + 1)" using assms by simp
  then have "{..<nat (radius * 2 + 1)} \<noteq> {}" by (simp add: lessThan_empty_iff)
  then show ?thesis
    by (intro sum_pos) (simp_all add: kernelValue_pos)
qed

lemma gaussKernel_length [simp]: "length (gaussKernel radius) = nat (radius * 2 + 1)"
  by (simp add: gaussKernel_map)

lemma gaussKernel_sum:
  assumes "0 < radius"
  shows "(\<Sum>i<nat (radius * 2 + 1). gaussKernel radius ! i) = 1"
proof -
  define n where "n = nat (radius * 2 + 1)"
  define s where "s = (\<Sum>j<n. kernelValue radius j)"
  have "0 < s" unfolding s_def n_def using assms by (rule kernelSum_pos)
  have "(\<Sum>i<n. gaussKernel radius ! i) = (\<Sum>i<n. kernelValue radius i / s)"
    unfolding gaussKernel_map n_def [symmetric] s_def [symmetric]
    by (intro sum.cong) simp_all
  also have "\<dots> = (\<Sum>i<n. kernelValue radius i) / s"
    by (simp add: sum_divide_distrib)
  also have "\<dots> = 1" using \<open>0 < s\<close> by (simp add: s_def)
  finally show ?thesis unfolding n_def .
qed

lemma gaussKernel_nth_pos:
  assumes "0 < radius" and "i < nat (radius * 2 + 1)"
  shows "0 < gaussKernel radius ! i"
  using assms kernelSum_pos [OF assms(1)]
  by (simp add: gaussKernel_map kernelValue_pos del: upt_Suc)

lemma kernelValue_sym:
  assumes "0 \<le> radius" and "i \<le> nat (radius * 2)"
  shows "kernelValue radius (nat (radius * 2) - i) = kernelValue radius i"
proof -
  have "int (nat (radius * 2) - i) - radius = - (int i - radius)"
    using assms by simp
  then have "(int (nat (radius * 2) - i) - radius) * (int (nat (radius * 2) - i) - radius)
               = (- (int i - radius)) * (- (int i - radius))"
    by (simp only:)
  also have "\<dots> = (int i - radius) * (int i - radius)"
    by (rule minus_mult_minus)
  finally have "(int (nat (radius * 2) - i) - radius) * (int (nat (radius * 2) - i) - radius)
               = (int i - radius) * (int i - radius)" .
  then show ?thesis by (simp only: kernelValue_def Let_def)
qed

lemma gaussKernel_sym:
  assumes "0 < radius" and "i \<le> nat (radius * 2)"
  shows "gaussKernel radius ! (nat (radius * 2) - i) = gaussKernel radius ! i"
proof -
  have "0 \<le> radius" using assms by simp
  moreover have "nat (radius * 2) - i < nat (radius * 2 + 1)" and "i < nat (radius * 2 + 1)"
    using assms by linarith+
  ultimately show ?thesis
    by (simp add: gaussKernel_map kernelValue_sym [OF _ assms(2)] del: upt_Suc)
qed

subsection \<open>The two blur passes\<close>

lemma fold_accum:
  fixes a :: real
  shows "fold (\<lambda>k accum. accum + t k) ks a = a + sum_list (map t ks)"
  by (induction ks arbitrary: a) simp_all

lemma clamp_index_range:
  assumes "0 < n"
  shows "0 \<le> clamp (int x + k) 0 (int n - 1) \<and> nat (clamp (int x + k) 0 (int n - 1)) < n"
  using assms by (auto simp: clamp_def min_def max_def)

lemma horizontal_index:
  assumes "0 < width"
  shows "nat (int y * int width + clamp (int x + k) 0 (int width - 1))
           = y * width + nat (clamp (int x + k) 0 (int width - 1))"
  using clamp_index_range [OF assms, of x k] by (simp add: nat_add_distrib nat_mult_distrib)

lemma vertical_index:
  assumes "0 < height"
  shows "nat (clamp (int y + k) 0 (int height - 1) * int width + int x)
           = nat (clamp (int y + k) 0 (int height - 1)) * width + x"
  using clamp_index_range [OF assms, of y k] by (simp add: nat_add_distrib nat_mult_distrib)

lemma accumHorizontal_sum:
  assumes "0 < width"
  shows "accumHorizontal source kern width radius y x =
     (\<Sum>k\<leftarrow>[- radius..radius].
        source ! (y * width + nat (clamp (int x + k) 0 (int width - 1))) * kern ! nat (k + radius))"
  by (simp add: accumHorizontal_def Let_def fold_accum horizontal_index [OF assms])

lemma accumVertical_sum:
  assumes "0 < height"
  shows "accumVertical horizontal kern width height radius y x =
     (\<Sum>k\<leftarrow>[- radius..radius].
        horizontal ! (nat (clamp (int y + k) 0 (int height - 1)) * width + x) * kern ! nat (k + radius))"
  by (simp add: accumVertical_def Let_def fold_accum vertical_index [OF assms])

lemma kernel_offsets:
  assumes "0 \<le> radius"
  shows "map (\<lambda>k. f (nat (k + radius))) [- radius..radius] = map f [0..<nat (radius * 2 + 1)]"
proof (rule nth_equalityI)
  show "length (map (\<lambda>k. f (nat (k + radius))) [- radius..radius])
          = length (map f [0..<nat (radius * 2 + 1)])"
    using assms by simp
next
  fix i assume "i < length (map (\<lambda>k. f (nat (k + radius))) [- radius..radius])"
  then have i: "i < nat (radius * 2 + 1)" using assms by simp
  then have "- radius + int i \<le> radius" by linarith
  then have "[- radius..radius] ! i = - radius + int i" by (rule nth_upto)
  with i show "map (\<lambda>k. f (nat (k + radius))) [- radius..radius] ! i
                 = map f [0..<nat (radius * 2 + 1)] ! i"
    using assms by simp
qed

lemma kernel_weights_total:
  assumes "0 < radius"
  shows "(\<Sum>k\<leftarrow>[- radius..radius]. gaussKernel radius ! nat (k + radius)) = 1"
proof -
  have "0 \<le> radius" using assms by simp
  then have "(\<Sum>k\<leftarrow>[- radius..radius]. gaussKernel radius ! nat (k + radius))
          = sum_list (map (\<lambda>i. gaussKernel radius ! i) [0..<nat (radius * 2 + 1)])"
    by (simp only: kernel_offsets)
  also have "\<dots> = (\<Sum>i<nat (radius * 2 + 1). gaussKernel radius ! i)"
    by (rule sum_list_map_upt)
  also have "\<dots> = 1" using assms by (rule gaussKernel_sum)
  finally show ?thesis .
qed

lemma grid_list_eqI:
  assumes "length xs = width * height" and "length ys = width * height"
    and "\<And>x y. x < width \<Longrightarrow> y < height \<Longrightarrow> xs ! (y * width + x) = ys ! (y * width + x)"
  shows "xs = ys"
proof (rule nth_equalityI)
  show "length xs = length ys" using assms by simp
next
  fix i assume "i < length xs"
  then have i: "i < width * height" using assms by simp
  then have w: "0 < width" by (cases width) simp_all
  then have "i mod width < width" by simp
  moreover have "i div width < height"
    using i by (simp add: less_mult_imp_div_less mult.commute)
  ultimately have "xs ! (i div width * width + i mod width) = ys ! (i div width * width + i mod width)"
    by (rule assms(3))
  then show "xs ! i = ys ! i" by simp
qed

lemma accumHorizontal_constant:
  assumes "0 < radius" and "x < width" and "y < height"
  shows "accumHorizontal (replicate (width * height) c) (gaussKernel radius) width radius y x = c"
proof -
  have w: "0 < width" using assms by simp
  have "replicate (width * height) c ! (y * width + nat (clamp (int x + k) 0 (int width - 1))) = c"
    for k
    using clamp_index_range [OF w, of x k] assms(3) by (simp add: grid_index_bound)
  then have "accumHorizontal (replicate (width * height) c) (gaussKernel radius) width radius y x
          = (\<Sum>k\<leftarrow>[- radius..radius]. c * gaussKernel radius ! nat (k + radius))"
    by (simp only: accumHorizontal_sum [OF w])
  also have "\<dots> = c * (\<Sum>k\<leftarrow>[- radius..radius]. gaussKernel radius ! nat (k + radius))"
    by (simp add: sum_list_const_mult)
  finally show ?thesis by (simp add: kernel_weights_total [OF assms(1)])
qed

lemma accumVertical_constant:
  assumes "0 < radius" and "x < width" and "y < height"
  shows "accumVertical (replicate (width * height) c) (gaussKernel radius) width height radius y x = c"
proof -
  have h: "0 < height" using assms by simp
  have "replicate (width * height) c ! (nat (clamp (int y + k) 0 (int height - 1)) * width + x) = c"
    for k
    using clamp_index_range [OF h, of y k] assms(2) by (simp add: grid_index_bound)
  then have "accumVertical (replicate (width * height) c) (gaussKernel radius) width height radius y x
          = (\<Sum>k\<leftarrow>[- radius..radius]. c * gaussKernel radius ! nat (k + radius))"
    by (simp only: accumVertical_sum [OF h])
  also have "\<dots> = c * (\<Sum>k\<leftarrow>[- radius..radius]. gaussKernel radius ! nat (k + radius))"
    by (simp add: sum_list_const_mult)
  finally show ?thesis by (simp add: kernel_weights_total [OF assms(1)])
qed

lemma gaussianBlur_length [simp]:
  "length (gaussianBlur source width height radius) = length source"
  by (simp add: gaussianBlur_def Let_def)

lemma gaussianBlur_constant:
  "gaussianBlur (replicate (width * height) c) width height radius = replicate (width * height) c"
proof (cases "radius \<le> 0")
  case True
  then show ?thesis by (simp add: gaussianBlur_def)
next
  case False
  then have r: "0 < radius" by simp
  have h: "blurHorizontal (replicate (width * height) c) (gaussKernel radius) width height radius
             = replicate (width * height) c"
    by (rule grid_list_eqI [of _ width height])
       (simp_all add: blurHorizontal_nth accumHorizontal_constant [OF r] grid_index_bound)
  have "blurVertical (replicate (width * height) c) (gaussKernel radius) width height radius
             = replicate (width * height) c"
    by (rule grid_list_eqI [of _ width height])
       (simp_all add: blurVertical_nth accumVertical_constant [OF r] grid_index_bound)
  with h False show ?thesis by (simp add: gaussianBlur_def Let_def)
qed

subsection \<open>Sum conservation at radius 1\<close>

lemma sum_list_grid:
  fixes xs :: "real list"
  assumes "length xs = width * height"
  shows "sum_list xs = (\<Sum>y<height. \<Sum>x<width. xs ! (y * width + x))"
proof -
  have "sum_list xs = (\<Sum>i<height * width. xs ! i)"
    using assms by (simp add: sum_list_sum_nth atLeast0LessThan mult.commute)
  also have "\<dots> = (\<Sum>y<height. \<Sum>i = y * width..<y * width + width. xs ! i)"
    by (rule sum.nat_group [symmetric])
  also have "\<dots> = (\<Sum>y<height. \<Sum>x<width. xs ! (y * width + x))"
  proof (rule sum.cong [OF refl])
    fix y
    have "(\<Sum>i = 0 + y * width..<width + y * width. xs ! i) = (\<Sum>x = 0..<width. xs ! (x + y * width))"
      by (rule sum.shift_bounds_nat_ivl)
    then show "(\<Sum>i = y * width..<y * width + width. xs ! i) = (\<Sum>x<width. xs ! (y * width + x))"
      by (simp add: add.commute atLeast0LessThan)
  qed
  finally show ?thesis .
qed

lemma clamped_neighbours_sum:
  fixes f :: "nat \<Rightarrow> real"
  shows "(\<Sum>x<n. f (x - 1)) + (\<Sum>x<n. f (min (x + 1) (n - 1))) = 2 * (\<Sum>x<n. f x)"
proof (cases n)
  case 0
  then show ?thesis by simp
next
  case (Suc m)
  have l: "(\<Sum>x<Suc m. f (x - 1)) = f 0 + (\<Sum>x<m. f x)"
    unfolding sum.lessThan_Suc_shift by simp
  have "(\<Sum>x<m. f (min (x + 1) m)) = (\<Sum>x<m. f (Suc x))"
    by (intro sum.cong) (simp_all add: min_def)
  then have r: "(\<Sum>x<Suc m. f (min (x + 1) (Suc m - 1))) = (\<Sum>x<m. f (Suc x)) + f m"
    by simp
  have t1: "(\<Sum>x<Suc m. f x) = (\<Sum>x<m. f x) + f m" by simp
  have t2: "(\<Sum>x<Suc m. f x) = f 0 + (\<Sum>x<m. f (Suc x))" by (rule sum.lessThan_Suc_shift)
  have "(\<Sum>x<Suc m. f (x - 1)) + (\<Sum>x<Suc m. f (min (x + 1) (Suc m - 1)))
          = ((\<Sum>x<m. f x) + f m) + (f 0 + (\<Sum>x<m. f (Suc x)))"
    unfolding l r by simp
  also have "\<dots> = 2 * (\<Sum>x<Suc m. f x)"
    using t1 t2 by simp
  finally show ?thesis unfolding Suc .
qed

lemma clamp_neighbours:
  assumes "x < n"
  shows "nat (clamp (int x - 1) 0 (int n - 1)) = x - 1"
    and "nat (clamp (int x) 0 (int n - 1)) = x"
    and "nat (clamp (int x + 1) 0 (int n - 1)) = min (x + 1) (n - 1)"
  using assms by (auto simp: clamp_def min_def max_def)

lemma three_tap_sum:
  fixes f :: "nat \<Rightarrow> real"
  assumes "k0 = k2" and "k0 + k1 + k2 = 1"
  shows "(\<Sum>x<n. f (x - 1) * k0 + f x * k1 + f (min (x + 1) (n - 1)) * k2) = (\<Sum>x<n. f x)"
proof -
  have "(\<Sum>x<n. f (x - 1) * k0 + f x * k1 + f (min (x + 1) (n - 1)) * k2)
          = k0 * ((\<Sum>x<n. f (x - 1)) + (\<Sum>x<n. f (min (x + 1) (n - 1)))) + k1 * (\<Sum>x<n. f x)"
    unfolding assms(1) by (simp add: sum.distrib sum_distrib_left algebra_simps)
  also have "\<dots> = (2 * k0 + k1) * (\<Sum>x<n. f x)"
    unfolding clamped_neighbours_sum by (simp add: algebra_simps)
  also have "2 * k0 + k1 = 1" using assms by simp
  finally show ?thesis by simp
qed

lemma gaussKernel_one:
  "gaussKernel 1 ! 0 = gaussKernel 1 ! 2"
  "gaussKernel 1 ! 0 + gaussKernel 1 ! 1 + gaussKernel 1 ! 2 = 1"
proof -
  show "gaussKernel 1 ! 0 = gaussKernel 1 ! 2"
    using gaussKernel_sym [of 1 2] by simp
  have "(\<Sum>i<nat (1 * 2 + 1). gaussKernel 1 ! i) = 1"
    by (rule gaussKernel_sum) simp
  then show "gaussKernel 1 ! 0 + gaussKernel 1 ! 1 + gaussKernel 1 ! 2 = 1"
    by (simp add: eval_nat_numeral)
qed

lemma accumHorizontal_one:
  assumes "x < width"
  shows "accumHorizontal source kern width 1 y x =
           source ! (y * width + (x - 1)) * kern ! 0 + source ! (y * width + x) * kern ! 1
           + source ! (y * width + min (x + 1) (width - 1)) * kern ! 2"
proof -
  have w: "0 < width" using assms by simp
  show ?thesis
    unfolding accumHorizontal_sum [OF w]
    by (simp add: upto_rec1 [of "-1" 1] upto_rec1 [of 0 1] clamp_neighbours [OF assms])
qed

lemma accumVertical_one:
  assumes "y < height"
  shows "accumVertical horizontal kern width height 1 y x =
           horizontal ! ((y - 1) * width + x) * kern ! 0 + horizontal ! (y * width + x) * kern ! 1
           + horizontal ! (min (y + 1) (height - 1) * width + x) * kern ! 2"
proof -
  have h: "0 < height" using assms by simp
  show ?thesis
    unfolding accumVertical_sum [OF h]
    by (simp add: upto_rec1 [of "-1" 1] upto_rec1 [of 0 1] clamp_neighbours [OF assms])
qed

lemma blurHorizontal_one_sum:
  assumes "length source = width * height"
  shows "sum_list (blurHorizontal source (gaussKernel 1) width height 1) = sum_list source"
proof -
  let ?H = "blurHorizontal source (gaussKernel 1) width height 1"
  have "sum_list ?H = (\<Sum>y<height. \<Sum>x<width. ?H ! (y * width + x))"
    using assms by (intro sum_list_grid) simp
  also have "\<dots> = (\<Sum>y<height. \<Sum>x<width. source ! (y * width + x))"
  proof (rule sum.cong [OF refl])
    fix y assume "y \<in> {..<height}"
    then have y: "y < height" by simp
    have "(\<Sum>x<width. ?H ! (y * width + x))
            = (\<Sum>x<width. source ! (y * width + (x - 1)) * gaussKernel 1 ! 0
                 + source ! (y * width + x) * gaussKernel 1 ! 1
                 + source ! (y * width + min (x + 1) (width - 1)) * gaussKernel 1 ! 2)"
      using assms y by (intro sum.cong) (simp_all add: blurHorizontal_nth accumHorizontal_one)
    also have "\<dots> = (\<Sum>x<width. source ! (y * width + x))"
      using gaussKernel_one by (rule three_tap_sum [of _ _ _ "\<lambda>x. source ! (y * width + x)"])
    finally show "(\<Sum>x<width. ?H ! (y * width + x)) = (\<Sum>x<width. source ! (y * width + x))" .
  qed
  also have "\<dots> = sum_list source"
    using assms by (rule sum_list_grid [symmetric])
  finally show ?thesis .
qed

lemma blurVertical_one_sum:
  assumes "length horizontal = width * height"
  shows "sum_list (blurVertical horizontal (gaussKernel 1) width height 1) = sum_list horizontal"
proof -
  let ?V = "blurVertical horizontal (gaussKernel 1) width height 1"
  have "sum_list ?V = (\<Sum>y<height. \<Sum>x<width. ?V ! (y * width + x))"
    using assms by (intro sum_list_grid) simp
  also have "\<dots> = (\<Sum>x<width. \<Sum>y<height. ?V ! (y * width + x))"
    by (rule sum.swap)
  also have "\<dots> = (\<Sum>x<width. \<Sum>y<height. horizontal ! (y * width + x))"
  proof (rule sum.cong [OF refl])
    fix x assume "x \<in> {..<width}"
    then have x: "x < width" by simp
    have "(\<Sum>y<height. ?V ! (y * width + x))
            = (\<Sum>y<height. horizontal ! ((y - 1) * width + x) * gaussKernel 1 ! 0
                 + horizontal ! (y * width + x) * gaussKernel 1 ! 1
                 + horizontal ! (min (y + 1) (height - 1) * width + x) * gaussKernel 1 ! 2)"
      using assms x by (intro sum.cong) (simp_all add: blurVertical_nth accumVertical_one)
    also have "\<dots> = (\<Sum>y<height. horizontal ! (y * width + x))"
      using gaussKernel_one by (rule three_tap_sum [of _ _ _ "\<lambda>y. horizontal ! (y * width + x)"])
    finally show "(\<Sum>y<height. ?V ! (y * width + x)) = (\<Sum>y<height. horizontal ! (y * width + x))" .
  qed
  also have "\<dots> = (\<Sum>y<height. \<Sum>x<width. horizontal ! (y * width + x))"
    by (rule sum.swap)
  also have "\<dots> = sum_list horizontal"
    using assms by (rule sum_list_grid [symmetric])
  finally show ?thesis .
qed

subsection \<open>The blurred total\<close>

lemma sum_list_map_upto: "sum_list (map f [i..j]) = sum f {i..j}"
  by (simp add: interv_sum_list_conv_sum_set_int)

lemma kernel_tap_sym:
  assumes "0 < radius" and "- radius \<le> k" and "k \<le> radius"
  shows "gaussKernel radius ! nat (- k + radius) = gaussKernel radius ! nat (k + radius)"
proof -
  have "nat (k + radius) \<le> nat (radius * 2)" using assms by simp
  then have "gaussKernel radius ! (nat (radius * 2) - nat (k + radius))
               = gaussKernel radius ! nat (k + radius)"
    using assms(1) by (intro gaussKernel_sym)
  moreover have "nat (radius * 2) - nat (k + radius) = nat (- k + radius)"
    using assms by simp
  ultimately show ?thesis by simp
qed

lemma kernel_tap_pos:
  assumes "0 < radius" and "- radius \<le> k" and "k \<le> radius"
  shows "0 < gaussKernel radius ! nat (k + radius)"
  using assms by (intro gaussKernel_nth_pos) simp_all

lemma kernel_half_sums:
  assumes "0 < radius"
  shows "sum (\<lambda>k. gaussKernel radius ! nat (k + radius)) {- radius..0}
         + sum (\<lambda>k. gaussKernel radius ! nat (k + radius)) {- radius..- 1} = 1"
proof -
  let ?g = "\<lambda>k. gaussKernel radius ! nat (k + radius)"
  have sym: "?g (- k) = ?g k" if "- radius \<le> k" and "k \<le> radius" for k
    using assms that by (rule kernel_tap_sym)
  have "sum ?g {- radius..- 1} = sum ?g {1..radius}"
    by (rule sum.reindex_bij_witness [of _ uminus uminus]) (use sym in auto)
  then have "sum ?g {1..radius} = sum ?g {- radius..- 1}" by simp
  moreover have "{- radius..radius} = {- radius..0} \<union> {1..radius}" and "{- radius..0} \<inter> {1..radius} = {}"
    using assms by auto
  then have "sum ?g {- radius..radius} = sum ?g {- radius..0} + sum ?g {1..radius}"
    by (simp add: sum.union_disjoint)
  moreover have "sum ?g {- radius..radius} = 1"
    using kernel_weights_total [OF assms] by (simp add: sum_list_map_upto)
  ultimately show ?thesis by simp
qed

lemma edge_accumHorizontal:
  assumes "0 < radius" and "x < 3"
  shows "accumHorizontal [1, 0, 0] kern 3 radius 0 x
           = sum (\<lambda>k. kern ! nat (k + radius)) {- radius..- int x}"
proof -
  have pick: "[1, 0, 0 :: real] ! nat (clamp (int x + k) 0 (int 3 - 1)) = (if k \<le> - int x then 1 else 0)"
    for k
  proof -
    consider "int x + k \<le> 0" | "int x + k = 1" | "2 \<le> int x + k" by linarith
    then show ?thesis
    proof cases
      case 1
      then show ?thesis by (simp add: clamp_def)
    next
      case 2
      then show ?thesis by (simp add: clamp_def)
    next
      case 3
      then have "clamp (int x + k) 0 (int 3 - 1) = 2" by (simp add: clamp_def)
      with 3 show ?thesis by simp
    qed
  qed
  have "accumHorizontal [1, 0, 0] kern 3 radius 0 x
          = (\<Sum>k\<in>{- radius..radius}. (if k \<le> - int x then 1 else 0) * kern ! nat (k + radius))"
    by (simp add: accumHorizontal_sum sum_list_map_upto pick del: of_nat_numeral)
  also have "\<dots> = (\<Sum>k\<in>{- radius..radius}. if k \<le> - int x then kern ! nat (k + radius) else 0)"
    by (intro sum.cong) simp_all
  also have "\<dots> = sum (\<lambda>k. kern ! nat (k + radius)) {k \<in> {- radius..radius}. k \<le> - int x}"
    by (rule sum.inter_filter [symmetric]) simp
  also have "{k \<in> {- radius..radius}. k \<le> - int x} = {- radius..- int x}"
    using assms by auto
  finally show ?thesis .
qed

lemma edge_accumVertical:
  assumes "0 < radius"
  shows "accumVertical horizontal (gaussKernel radius) 3 1 radius 0 x = horizontal ! x"
proof -
  have "accumVertical horizontal (gaussKernel radius) 3 1 radius 0 x
          = (\<Sum>k\<leftarrow>[- radius..radius]. horizontal ! x * gaussKernel radius ! nat (k + radius))"
    by (simp add: accumVertical_sum clamp_def)
  also have "\<dots> = horizontal ! x * (\<Sum>k\<leftarrow>[- radius..radius]. gaussKernel radius ! nat (k + radius))"
    by (simp add: sum_list_const_mult)
  finally show ?thesis by (simp add: kernel_weights_total [OF assms])
qed

lemma edge_field_total:
  assumes "0 < radius"
  shows "sum_list (gaussianBlur [1, 0, 0] 3 1 radius)
           = 1 + sum (\<lambda>k. gaussKernel radius ! nat (k + radius)) {- radius..- 2}"
proof -
  define K where "K = gaussKernel radius"
  define H where "H = blurHorizontal [1, 0, 0] K 3 1 radius"
  define V where "V = blurVertical H K 3 1 radius"
  let ?g = "\<lambda>k. K ! nat (k + radius)"
  have idx: "0 * 3 + 0 = (0::nat)" "0 * 3 + 1 = (1::nat)" "0 * 3 + 2 = (2::nat)" by simp_all
  have lt: "(0::nat) < 3" "(1::nat) < 3" "(2::nat) < 3" by simp_all
  have h: "H ! (0 * 3 + x) = sum ?g {- radius..- int x}" if "x < 3" for x
  proof -
    have "H ! (0 * 3 + x) = accumHorizontal [1, 0, 0] K 3 radius 0 x"
      unfolding H_def using that by (intro blurHorizontal_nth) simp_all
    then show ?thesis using edge_accumHorizontal [OF assms that] by simp
  qed
  have v: "V ! (0 * 3 + x) = H ! x" if "x < 3" for x
  proof -
    have "V ! (0 * 3 + x) = accumVertical H K 3 1 radius 0 x"
      unfolding V_def using that by (intro blurVertical_nth) (simp_all add: H_def)
    then show ?thesis unfolding K_def using edge_accumVertical [OF assms] by simp
  qed
  have v0: "V ! 0 = sum ?g {- radius..0}"
    using v [OF lt(1)] h [OF lt(1)] unfolding idx by simp
  have v1: "V ! 1 = sum ?g {- radius..- 1}"
    using v [OF lt(2)] h [OF lt(2)] unfolding idx by simp
  have v2: "V ! 2 = sum ?g {- radius..- 2}"
    using v [OF lt(3)] h [OF lt(3)] unfolding idx by simp
  have three: "(\<Sum>y<1. \<Sum>x<3. V ! (y * 3 + x)) = V ! 0 + V ! 1 + V ! 2"
    by (simp add: eval_nat_numeral)
  have "length V = 3 * 1" by (simp add: V_def H_def)
  then have "sum_list V = (\<Sum>y<1. \<Sum>x<3. V ! (y * 3 + x))"
    by (rule sum_list_grid)
  also have "\<dots> = sum ?g {- radius..0} + sum ?g {- radius..- 1} + sum ?g {- radius..- 2}"
    unfolding three v0 v1 v2 ..
  also have "\<dots> = 1 + sum ?g {- radius..- 2}"
    unfolding K_def kernel_half_sums [OF assms] ..
  finally show ?thesis
    using assms by (simp add: gaussianBlur_def Let_def V_def H_def K_def)
qed

lemma edge_field_total_grows:
  assumes "2 \<le> radius"
  shows "sum_list [1, 0, 0] < sum_list (gaussianBlur [1, 0, 0] 3 1 radius)"
proof -
  have r: "0 < radius" using assms by simp
  have "0 < sum (\<lambda>k. gaussKernel radius ! nat (k + radius)) {- radius..- 2}"
  proof (rule sum_pos)
    show "{- radius..- 2} \<noteq> {}" using assms by simp
    show "finite {- radius..- 2}" by simp
    fix k assume "k \<in> {- radius..- 2}"
    then have "- radius \<le> k" "k \<le> radius" using assms by simp_all
    with r show "0 < gaussKernel radius ! nat (k + radius)" by (rule kernel_tap_pos)
  qed
  then show ?thesis unfolding edge_field_total [OF r] by simp
qed

text \<open>
  C2, as stated, fails at radius 2 (the radius the default smoothness 32 gives): on the
  3x1 field \<open>[1, 0, 0]\<close> the blurred total is \<open>1 + kernel[0]\<close>, because with clamping
  the border sample is read for the offsets -2, -1, 0 at the first pixel, for -2, -1 at
  the second and for -2 at the third.
\<close>

theorem blur_sum_not_conserved:
  "sum_list (gaussianBlur [1, 0, 0] 3 1 2) \<noteq> sum_list [1, 0, 0]"
  using edge_field_total_grows [of 2] by simp

text \<open>
  C2, amended. On a field of \<open>width * height\<close> samples \<open>gaussianBlur\<close> with radius 1
  returns a field with the same total as its input; and for every radius from 1 on, a
  constant field is returned unchanged (the kernel weights sum to 1 and every clamped
  sample is the constant), so its total is conserved too. From radius 2 on the total is
  not conserved in general: the 3x1 field \<open>[1, 0, 0]\<close> blurs to a strictly larger total.
\<close>

theorem gaussianBlur_total_conserved:
  assumes "length source = width * height"
  shows "sum_list (gaussianBlur source width height 1) = sum_list source
         \<and> (1 \<le> radius \<and> (\<forall>v\<in>set source. v = c)
              \<longrightarrow> gaussianBlur source width height radius = source
                  \<and> sum_list (gaussianBlur source width height radius) = sum_list source)
         \<and> (2 \<le> radius
              \<longrightarrow> sum_list [1, 0, 0] < sum_list (gaussianBlur [1, 0, 0] 3 1 radius))"
proof -
  have "length (blurHorizontal source (gaussKernel 1) width height 1) = width * height"
    using assms by simp
  then have "sum_list (blurVertical (blurHorizontal source (gaussKernel 1) width height 1)
                 (gaussKernel 1) width height 1)
               = sum_list (blurHorizontal source (gaussKernel 1) width height 1)"
    by (rule blurVertical_one_sum)
  also have "\<dots> = sum_list source"
    using assms by (rule blurHorizontal_one_sum)
  finally have one: "sum_list (gaussianBlur source width height 1) = sum_list source"
    by (simp add: gaussianBlur_def Let_def)
  have const: "gaussianBlur source width height radius = source
             \<and> sum_list (gaussianBlur source width height radius) = sum_list source"
    if a: "1 \<le> radius \<and> (\<forall>v\<in>set source. v = c)"
  proof -
    from a have "source = replicate (length source) c"
      by (intro replicate_eqI) simp_all
    then have s: "source = replicate (width * height) c"
      using assms by simp
    have "gaussianBlur (replicate (width * height) c) width height radius
            = replicate (width * height) c"
      by (rule gaussianBlur_constant)
    then show ?thesis using s by simp
  qed
  have edge: "sum_list [1, 0, 0] < sum_list (gaussianBlur [1, 0, 0] 3 1 radius)"
    if "2 \<le> radius"
    using that by (rule edge_field_total_grows)
  from one const edge show ?thesis by blast
qed

theorem gaussianBlur_total_conserved_witness:
  "sum_list (gaussianBlur [1, 0, 0] 3 1 1) = sum_list [1, 0, 0]
   \<and> gaussianBlur [5, 5, 5] 3 1 2 = [5, 5, 5]
   \<and> sum_list [1, 0, 0] < sum_list (gaussianBlur [1, 0, 0] 3 1 3)"
  using gaussianBlur_total_conserved [of "[1, 0, 0]" 3 1 1 0]
    gaussianBlur_total_conserved [of "[5, 5, 5]" 3 1 2 5]
    gaussianBlur_total_conserved [of "[1, 0, 0]" 3 1 3 0]
  by simp

subsection \<open>The tone loop\<close>

lemma luminanceOf_length [simp]: "length (luminanceOf data width height) = width * height"
  by (simp add: luminanceOf_def Let_def)

lemma detailSourceOf_map:
  "detailSourceOf luminance smoothed
     = map (\<lambda>i. luminance ! i - smoothed ! i) [0..<length luminance]"
  by (simp add: detailSourceOf_def fill_loop_map)

lemma normaliseArray_zeros: "normaliseArray (replicate n 0) = replicate n 0"
proof (cases n)
  case 0
  then show ?thesis by (simp add: normaliseArray_empty)
next
  case (Suc m)
  then have ne: "replicate n (0::real) \<noteq> []" by simp
  have "set (replicate n (0::real)) = {0}" using Suc by (intro set_replicate) simp
  then show ?thesis
    by (simp add: normaliseArray_map [OF ne] map_replicate_const)
qed

lemma normaliseArray_unit_range:
  assumes "v \<in> set (normaliseArray source)"
  shows "0 \<le> v \<and> v \<le> 1"
proof -
  have ne: "source \<noteq> []" using assms by (auto simp: normaliseArray_empty)
  define mn where "mn = Min (set source)"
  define mx where "mx = Max (set source)"
  from assms obtain u where u: "u \<in> set source"
    and v: "v = (u - mn) / (if mx - mn = 0 then 1 else mx - mn)"
    unfolding normaliseArray_map [OF ne] mn_def mx_def by auto
  have b: "mn \<le> u" "u \<le> mx" unfolding mn_def mx_def using u by simp_all
  show ?thesis
  proof (cases "mx - mn = 0")
    case True
    with b have "u = mn" by simp
    with True v show ?thesis by simp
  next
    case False
    with b have "0 < mx - mn" by simp
    with b False v show ?thesis by (simp add: divide_le_eq_1_pos)
  qed
qed

lemma toneValue_range: "0 \<le> toneValue settings a b c \<and> toneValue settings a b c \<le> 255"
proof -
  have c: "0 \<le> clamp v 0 255 \<and> clamp v 0 255 \<le> 255" for v :: real
    by (simp add: clamp_def)
  have stage: "0 \<le> (if P then clamp u 0 255 else v) \<and> (if P then clamp u 0 255 else v) \<le> 255"
    if "0 \<le> v \<and> v \<le> 255" for P and u v :: real
    using that c [of u] by simp
  show ?thesis
    unfolding toneValue_def Let_def by (intro stage c)
qed

lemma toUint8Clamped_le: "toUint8Clamped v \<le> 255"
proof -
  have "nat (\<lfloor>v\<rfloor> + 1) \<le> 255" and "nat \<lfloor>v\<rfloor> \<le> 255" if "v < 255"
  proof -
    from that have "\<lfloor>v\<rfloor> < 255" using floor_less_iff [of v 255] by simp
    then show "nat (\<lfloor>v\<rfloor> + 1) \<le> 255" and "nat \<lfloor>v\<rfloor> \<le> 255" by linarith+
  qed
  then show ?thesis
    by (simp add: toUint8Clamped_def Let_def not_le)
qed

lemma tone_loop_nth:
  assumes "i < length a"
  shows "fold (\<lambda>j a. a[4 * j := V j, 4 * j + 1 := V j, 4 * j + 2 := V j]) [0..<n] a ! i
           = (if i < 4 * n \<and> i mod 4 \<noteq> 3 then V (i div 4) else a ! i)"
proof -
  define body where "body = (\<lambda>j a. a[4 * j := V j, 4 * j + 1 := V j, 4 * j + 2 := V j])"
  have len: "length (fold body [0..<n] a) = length a" for n
    by (induction n) (simp_all add: body_def)
  have "fold body [0..<n] a ! i = (if i < 4 * n \<and> i mod 4 \<noteq> 3 then V (i div 4) else a ! i)"
  proof (induction n)
    case 0
    then show ?case by simp
  next
    case (Suc n)
    define prev where "prev = fold body [0..<n] a"
    have step: "fold body [0..<Suc n] a = prev[4 * n := V n, 4 * n + 1 := V n, 4 * n + 2 := V n]"
      by (simp add: prev_def body_def)
    have p: "i < length prev" unfolding prev_def len using assms .
    have ih: "prev ! i = (if i < 4 * n \<and> i mod 4 \<noteq> 3 then V (i div 4) else a ! i)"
      unfolding prev_def by (rule Suc.IH)
    consider "i = 4 * n" | "i = 4 * n + 1" | "i = 4 * n + 2" | "i = 4 * n + 3"
      | "i < 4 * n" | "4 * Suc n \<le> i"
      by atomize_elim arith
    then show ?case
    proof cases
      case 1
      then have "i div 4 = n" "i mod 4 = 0" by presburger+
      with 1 show ?thesis unfolding step using p by simp
    next
      case 2
      then have "i div 4 = n" "i mod 4 = 1" by presburger+
      with 2 show ?thesis unfolding step using p by simp
    next
      case 3
      then have "i div 4 = n" "i mod 4 = 2" by presburger+
      with 3 show ?thesis unfolding step using p by simp
    next
      case 4
      then have "i mod 4 = 3" by presburger
      with 4 show ?thesis unfolding step using p ih by simp
    next
      case 5
      then show ?thesis unfolding step using p ih by simp
    next
      case 6
      then show ?thesis unfolding step using p ih by simp
    qed
  qed
  then show ?thesis unfolding body_def .
qed

lemma toneMap_nth:
  assumes "i < length data"
  shows "toneMap settings data width height ! i
           = (if i mod 4 \<noteq> 3
              then toUint8Clamped (pixelValue settings (fieldsOf settings data width height) (i div 4))
              else data ! i)"
proof -
  have "i < 4 * ((length data + 3) div 4)" using assms by linarith
  then show ?thesis
    using tone_loop_nth [OF assms, of "\<lambda>j. toUint8Clamped (pixelValue settings (fieldsOf settings data width height) j)" "(length data + 3) div 4"]
    by (simp add: toneMap_def Let_def)
qed

subsection \<open>Output ranges and the low-smoothness case\<close>

lemma toneMap_length [simp]: "length (toneMap settings data width height) = length data"
proof -
  have "length (fold (\<lambda>j a. a[4 * j := V j, 4 * j + 1 := V j, 4 * j + 2 := V j]) [0..<n] a)
          = length a" for V :: "nat \<Rightarrow> nat" and n a
    by (induction n) simp_all
  then show ?thesis by (simp add: toneMap_def Let_def)
qed

text \<open>
  C1. Whatever the settings (in range or not) and whatever the source pixels, the value
  the tone loop computes at a pixel lies in \<open>[0, 255]\<close>, each channel it writes is that
  value as stored in the byte array and is in 0..255, and alpha is left as it was: with
  input bytes in 0..255 every channel of the written buffer is in 0..255. Every sample of
  the normalised detail residual and of the normalised Sobel magnitude lies in \<open>[0, 1]\<close>.
\<close>

theorem render_channels_in_range:
  assumes "length data = 4 * (width * height)"
    and "i < length data" and "\<forall>b\<in>set data. b \<le> 255"
  shows "toneMap settings data width height ! i \<le> 255
         \<and> (if i mod 4 \<noteq> 3
             then toneMap settings data width height ! i
                    = toUint8Clamped (pixelValue settings (fieldsOf settings data width height) (i div 4))
             else toneMap settings data width height ! i = data ! i)
         \<and> 0 \<le> pixelValue settings (fieldsOf settings data width height) idx
         \<and> pixelValue settings (fieldsOf settings data width height) idx \<le> 255
         \<and> (\<forall>v\<in>set (normalisedDetail (fieldsOf settings data width height)). 0 \<le> v \<and> v \<le> 1)
         \<and> (\<forall>v\<in>set (normalisedSobel (fieldsOf settings data width height)). 0 \<le> v \<and> v \<le> 1)"
proof -
  let ?out = "toneMap settings data width height"
  let ?flds = "fieldsOf settings data width height"
  have nth: "?out ! i = (if i mod 4 \<noteq> 3 then toUint8Clamped (pixelValue settings ?flds (i div 4))
                         else data ! i)"
    using assms(2) by (rule toneMap_nth)
  have "data ! i \<le> 255" using assms(2,3) by simp
  then have le: "?out ! i \<le> 255"
    unfolding nth by (simp add: toUint8Clamped_le)
  have written: "if i mod 4 \<noteq> 3 then ?out ! i = toUint8Clamped (pixelValue settings ?flds (i div 4))
                 else ?out ! i = data ! i"
    unfolding nth by simp
  have val: "0 \<le> pixelValue settings ?flds idx \<and> pixelValue settings ?flds idx \<le> 255"
    unfolding pixelValue_def by (rule toneValue_range)
  have detail: "\<forall>v\<in>set (normalisedDetail ?flds). 0 \<le> v \<and> v \<le> 1"
    by (simp add: fieldsOf_def Let_def normaliseArray_unit_range)
  have sobel: "\<forall>v\<in>set (normalisedSobel ?flds). 0 \<le> v \<and> v \<le> 1"
    by (simp add: fieldsOf_def Let_def normaliseArray_unit_range)
  from le written val detail sobel show ?thesis by blast
qed

theorem render_channels_in_range_witness:
  "toneMap \<lparr>depth = 200, luminosity = - 80, sheen = 68, matte = 40, smoothness = 32,
      microDetail = 48, backgroundLift = 72, macroZoom = 18, standHeight = 24,
      vignette = 36\<rparr> [10, 20, 30, 255] 1 1 ! 0 \<le> 255
   \<and> pixelValue \<lparr>depth = 200, luminosity = - 80, sheen = 68, matte = 40, smoothness = 32,
      microDetail = 48, backgroundLift = 72, macroZoom = 18, standHeight = 24,
      vignette = 36\<rparr> (fieldsOf \<lparr>depth = 200, luminosity = - 80, sheen = 68, matte = 40,
      smoothness = 32, microDetail = 48, backgroundLift = 72, macroZoom = 18,
      standHeight = 24, vignette = 36\<rparr> [10, 20, 30, 255] 1 1) 0 \<le> 255"
  using render_channels_in_range [of "[10, 20, 30, 255]" 1 1 0
      "\<lparr>depth = 200, luminosity = - 80, sheen = 68, matte = 40, smoothness = 32,
        microDetail = 48, backgroundLift = 72, macroZoom = 18, standHeight = 24,
        vignette = 36\<rparr>" 0]
  by simp

lemma low_smoothness_radius:
  assumes "smoothness settings < 9"
  shows "blurRadius settings = 0"
proof -
  have "0 \<le> clamp (smoothness settings) 0 100" and "clamp (smoothness settings) 0 100 < 9"
    using assms by (simp_all add: clamp_def)
  then have "\<bar>clamp (smoothness settings) 0 100 / 18 - of_int 0\<bar> < 1 / 2"
    by simp
  then show ?thesis unfolding blurRadius_def by (rule round_unique')
qed

lemma toneValue_stages:
  "toneValue settings smoothedAt detailAt sobelAt
     = postMicroValue settings (microStep settings (preMicroValue settings smoothedAt) detailAt)
         sobelAt"
  unfolding toneValue_def postMicroValue_def microStep_def preMicroValue_def Let_def ..

lemma preMicroValue_range:
  "0 \<le> preMicroValue settings smoothedAt \<and> preMicroValue settings smoothedAt \<le> 255"
  by (simp add: preMicroValue_def Let_def clamp_def)

lemma low_smoothness_fields:
  assumes "smoothness settings < 9"
  shows "smoothedField (fieldsOf settings data width height) = luminanceOf data width height"
    and "normalisedDetail (fieldsOf settings data width height) = replicate (width * height) 0"
proof -
  let ?lum = "luminanceOf data width height"
  have "blurRadius settings = 0" using assms by (rule low_smoothness_radius)
  then have sm: "smoothedOf settings ?lum width height = ?lum"
    by (simp add: smoothedOf_def gaussianBlur_def)
  have "detailSourceOf ?lum ?lum = map (\<lambda>i. 0) [0..<width * height]"
    by (simp add: detailSourceOf_map)
  then have d: "detailSourceOf ?lum ?lum = replicate (width * height) 0"
    by (simp add: map_replicate_const)
  show "smoothedField (fieldsOf settings data width height) = ?lum"
    by (simp add: fieldsOf_def Let_def sm)
  show "normalisedDetail (fieldsOf settings data width height) = replicate (width * height) 0"
    by (simp add: fieldsOf_def Let_def sm d normaliseArray_zeros)
qed

lemma microStep_clamped:
  "microStep settings val 0
     = clamp (val - 0.5 * 80 * (clamp (microDetail settings) 0 100 / 100)) 0 255"
  by (simp add: microStep_def microOf_def detailStrength_def Let_def)

lemma luminanceOf_nth:
  assumes "j < width * height" and "j < (length data + 3) div 4"
  shows "luminanceOf data width height ! j
           = real (data ! (4 * j)) * 0.299 + real (data ! (4 * j + 1)) * 0.587
             + real (data ! (4 * j + 2)) * 0.114"
proof -
  let ?gray = "\<lambda>j. real (data ! (4 * j)) * 0.299 + real (data ! (4 * j + 1)) * 0.587
                      + real (data ! (4 * j + 2)) * 0.114"
  have "fold (\<lambda>j a. a[j := ?gray j]) [0..<(length data + 3) div 4] (replicate (width * height) 0) ! j
          = ?gray j"
    using assms fold_update_hit [of "\<lambda>j. j" "[0..<(length data + 3) div 4]" j
        "replicate (width * height) 0" ?gray]
    by simp
  then show ?thesis by (simp add: luminanceOf_def Let_def)
qed

lemma dark_pixel_luminance: "luminanceOf [10, 20, 30, 255, 200, 100, 50, 255] 2 1 ! 0 = 363 / 20"
  by (subst luminanceOf_nth) simp_all

lemma dark_pixel_values:
  "preMicroValue (defaultSettings\<lparr>smoothness := 8\<rparr>) (363 / 20) = 12 / 5"
  "microStep (defaultSettings\<lparr>smoothness := 8\<rparr>) (12 / 5) 0 = 0"
  by (simp_all add: preMicroValue_def microStep_def microOf_def detailStrength_def
      depthStrength_def luminosityShift_def contrastTransform_def clamp_def defaultSettings_def
      Let_def)


text \<open>
  C10, as stated, fails on a dark pixel. With the default settings and smoothness 8, the
  first pixel of a 2x1 image with colour (10, 20, 30) has luminance 18.15; it reaches the
  micro-detail step with the value 2.4, the constant is 19.2, and the step leaves 0: the
  clamp removes 2.4, not 19.2.
\<close>

theorem micro_step_not_a_subtraction:
  "preMicroValue (defaultSettings\<lparr>smoothness := 8\<rparr>) (smoothedField (fieldsOf (defaultSettings\<lparr>smoothness := 8\<rparr>) [10, 20, 30, 255, 200, 100, 50, 255] 2 1) ! 0) = 12 / 5
   \<and> 0.5 * 80 * (clamp (microDetail (defaultSettings\<lparr>smoothness := 8\<rparr>)) 0 100 / 100) = 96 / 5
   \<and> microStep (defaultSettings\<lparr>smoothness := 8\<rparr>) (preMicroValue (defaultSettings\<lparr>smoothness := 8\<rparr>) (smoothedField (fieldsOf (defaultSettings\<lparr>smoothness := 8\<rparr>) [10, 20, 30, 255, 200, 100, 50, 255] 2 1) ! 0))
         (normalisedDetail (fieldsOf (defaultSettings\<lparr>smoothness := 8\<rparr>) [10, 20, 30, 255, 200, 100, 50, 255] 2 1) ! 0) = 0
   \<and> microStep (defaultSettings\<lparr>smoothness := 8\<rparr>) (preMicroValue (defaultSettings\<lparr>smoothness := 8\<rparr>) (smoothedField (fieldsOf (defaultSettings\<lparr>smoothness := 8\<rparr>) [10, 20, 30, 255, 200, 100, 50, 255] 2 1) ! 0))
         (normalisedDetail (fieldsOf (defaultSettings\<lparr>smoothness := 8\<rparr>) [10, 20, 30, 255, 200, 100, 50, 255] 2 1) ! 0)
       \<noteq> preMicroValue (defaultSettings\<lparr>smoothness := 8\<rparr>) (smoothedField (fieldsOf (defaultSettings\<lparr>smoothness := 8\<rparr>) [10, 20, 30, 255, 200, 100, 50, 255] 2 1) ! 0)
           - 0.5 * 80 * (clamp (microDetail (defaultSettings\<lparr>smoothness := 8\<rparr>)) 0 100 / 100)"
proof -
  have low: "smoothness (defaultSettings\<lparr>smoothness := 8\<rparr>) < 9"
    by (simp add: defaultSettings_def)
  have sm: "smoothedField (fieldsOf (defaultSettings\<lparr>smoothness := 8\<rparr>) [10, 20, 30, 255, 200, 100, 50, 255] 2 1) ! 0 = 363 / 20"
    unfolding low_smoothness_fields(1) [OF low] by (rule dark_pixel_luminance)
  have nd: "normalisedDetail (fieldsOf (defaultSettings\<lparr>smoothness := 8\<rparr>) [10, 20, 30, 255, 200, 100, 50, 255] 2 1) ! 0 = 0"
    unfolding low_smoothness_fields(2) [OF low] by simp
  have k: "0.5 * 80 * (clamp (microDetail (defaultSettings\<lparr>smoothness := 8\<rparr>)) 0 100 / 100) = 96 / 5"
    by (simp add: defaultSettings_def clamp_def)
  show ?thesis
    unfolding sm nd dark_pixel_values k by simp
qed

text \<open>
  C10, amended. With smoothness below 9 the blur radius is 0, the detail residual
  (luminance minus blurred luminance) is zero at every pixel, its normalisation is the
  all-zero field, and the micro-detail term is the same constant \<open>- K\<close> at every pixel,
  \<open>K = 0.5 * 80 * (clamp microDetail 0 100 / 100)\<close>, whatever the image. The micro-detail
  step of the tone loop then turns the value \<open>v\<close> that reaches it (always in \<open>[0, 255]\<close>)
  into \<open>clamp (v - K) 0 255\<close>: it subtracts \<open>K\<close> where \<open>v \<ge> K\<close> and leaves 0 where
  \<open>v < K\<close>.
\<close>

theorem low_smoothness_micro_step:
  assumes "smoothness settings < 9" and "length data = 4 * (width * height)"
    and "idx < width * height"
  shows "blurRadius settings = 0
         \<and> detailSourceOf (luminanceOf data width height)
              (smoothedOf settings (luminanceOf data width height) width height)
             = replicate (width * height) 0
         \<and> normalisedDetail (fieldsOf settings data width height) = replicate (width * height) 0
         \<and> microOf settings (normalisedDetail (fieldsOf settings data width height) ! idx)
             = - (0.5 * 80 * (clamp (microDetail settings) 0 100 / 100))
         \<and> pixelValue settings (fieldsOf settings data width height) idx
             = postMicroValue settings
                 (microStep settings
                    (preMicroValue settings (smoothedField (fieldsOf settings data width height) ! idx))
                    (normalisedDetail (fieldsOf settings data width height) ! idx))
                 (normalisedSobel (fieldsOf settings data width height) ! idx)
         \<and> 0 \<le> preMicroValue settings (smoothedField (fieldsOf settings data width height) ! idx)
         \<and> preMicroValue settings (smoothedField (fieldsOf settings data width height) ! idx) \<le> 255
         \<and> microStep settings v (normalisedDetail (fieldsOf settings data width height) ! idx)
             = clamp (v - 0.5 * 80 * (clamp (microDetail settings) 0 100 / 100)) 0 255
         \<and> (0 \<le> v \<and> v \<le> 255 \<longrightarrow>
              microStep settings v (normalisedDetail (fieldsOf settings data width height) ! idx)
                = (if 0.5 * 80 * (clamp (microDetail settings) 0 100 / 100) \<le> v
                   then v - 0.5 * 80 * (clamp (microDetail settings) 0 100 / 100) else 0))"
proof -
  let ?lum = "luminanceOf data width height"
  let ?flds = "fieldsOf settings data width height"
  define K where "K = 0.5 * 80 * (clamp (microDetail settings) 0 100 / 100)"
  have K: "0 \<le> K" unfolding K_def by (simp add: clamp_def)
  have r: "blurRadius settings = 0" using assms(1) by (rule low_smoothness_radius)
  then have sm: "smoothedOf settings ?lum width height = ?lum"
    by (simp add: smoothedOf_def gaussianBlur_def)
  have "detailSourceOf ?lum ?lum = map (\<lambda>i. 0) [0..<width * height]"
    by (simp add: detailSourceOf_map)
  then have d: "detailSourceOf ?lum ?lum = replicate (width * height) 0"
    by (simp add: map_replicate_const)
  have n: "normalisedDetail ?flds = replicate (width * height) 0"
    using assms(1) by (rule low_smoothness_fields(2))
  have z: "normalisedDetail ?flds ! idx = 0"
    unfolding n using assms(3) by simp
  have m: "microOf settings (normalisedDetail ?flds ! idx) = - K"
    unfolding z K_def by (simp add: microOf_def detailStrength_def)
  have p: "pixelValue settings ?flds idx
             = postMicroValue settings
                 (microStep settings (preMicroValue settings (smoothedField ?flds ! idx))
                    (normalisedDetail ?flds ! idx))
                 (normalisedSobel ?flds ! idx)"
    unfolding pixelValue_def by (rule toneValue_stages)
  have range: "0 \<le> preMicroValue settings (smoothedField ?flds ! idx)
               \<and> preMicroValue settings (smoothedField ?flds ! idx) \<le> 255"
    by (rule preMicroValue_range)
  have step: "microStep settings v (normalisedDetail ?flds ! idx) = clamp (v - K) 0 255"
    unfolding z K_def by (rule microStep_clamped)
  have split: "microStep settings v (normalisedDetail ?flds ! idx) = (if K \<le> v then v - K else 0)"
    if "0 \<le> v \<and> v \<le> 255"
    unfolding step using that K by (simp add: clamp_def)
  from r d n m p range step split show ?thesis
    unfolding sm K_def by blast
qed

theorem low_smoothness_micro_step_witness:
  "smoothness (defaultSettings\<lparr>smoothness := 8\<rparr>) < 9
   \<and> normalisedDetail (fieldsOf (defaultSettings\<lparr>smoothness := 8\<rparr>) [10, 20, 30, 255, 200, 100, 50, 255] 2 1) = replicate (2 * 1) 0
   \<and> microOf (defaultSettings\<lparr>smoothness := 8\<rparr>) (normalisedDetail (fieldsOf (defaultSettings\<lparr>smoothness := 8\<rparr>) [10, 20, 30, 255, 200, 100, 50, 255] 2 1) ! 1) = - (96 / 5)
   \<and> microStep (defaultSettings\<lparr>smoothness := 8\<rparr>) 100 (normalisedDetail (fieldsOf (defaultSettings\<lparr>smoothness := 8\<rparr>) [10, 20, 30, 255, 200, 100, 50, 255] 2 1) ! 1) = 404 / 5
   \<and> microStep (defaultSettings\<lparr>smoothness := 8\<rparr>) 10 (normalisedDetail (fieldsOf (defaultSettings\<lparr>smoothness := 8\<rparr>) [10, 20, 30, 255, 200, 100, 50, 255] 2 1) ! 1) = 0"
proof -
  have low: "smoothness (defaultSettings\<lparr>smoothness := 8\<rparr>) < 9"
    by (simp add: defaultSettings_def)
  have len: "length [10, 20, 30, 255, 200, 100, 50, 255] = 4 * (2 * 1)"
    by simp
  have idx: "(1::nat) < 2 * 1"
    by simp
  have k: "0.5 * 80 * (clamp (microDetail (defaultSettings\<lparr>smoothness := 8\<rparr>)) 0 100 / 100) = 96 / 5"
    by (simp add: defaultSettings_def clamp_def)
  note a = low_smoothness_micro_step [OF low len idx, where v = 100, unfolded k]
  note b = low_smoothness_micro_step [OF low len idx, where v = 10, unfolded k]
  have "microStep (defaultSettings\<lparr>smoothness := 8\<rparr>) 100 (normalisedDetail (fieldsOf (defaultSettings\<lparr>smoothness := 8\<rparr>) [10, 20, 30, 255, 200, 100, 50, 255] 2 1) ! 1) = clamp (100 - 96 / 5) 0 255"
    using a by blast
  then have hi: "microStep (defaultSettings\<lparr>smoothness := 8\<rparr>) 100 (normalisedDetail (fieldsOf (defaultSettings\<lparr>smoothness := 8\<rparr>) [10, 20, 30, 255, 200, 100, 50, 255] 2 1) ! 1) = 404 / 5"
    by (simp add: clamp_def)
  have "microStep (defaultSettings\<lparr>smoothness := 8\<rparr>) 10 (normalisedDetail (fieldsOf (defaultSettings\<lparr>smoothness := 8\<rparr>) [10, 20, 30, 255, 200, 100, 50, 255] 2 1) ! 1) = clamp (10 - 96 / 5) 0 255"
    using b by blast
  then have lo: "microStep (defaultSettings\<lparr>smoothness := 8\<rparr>) 10 (normalisedDetail (fieldsOf (defaultSettings\<lparr>smoothness := 8\<rparr>) [10, 20, 30, 255, 200, 100, 50, 255] 2 1) ! 1) = 0"
    by (simp add: clamp_def)
  from low a hi lo show ?thesis
    by blast
qed

subsection \<open>Compositing\<close>

lemma pixel_channels: "(channelOf p 0, channelOf p 1, channelOf p 2, channelOf p 3) = p"
  by (cases p) (simp add: channelOf_def)

lemma quad_index:
  fixes j :: nat
  shows "(4 * j) div 4 = j" "(4 * j + 1) div 4 = j" "(4 * j + 2) div 4 = j" "(4 * j + 3) div 4 = j"
    "(4 * j) mod 4 = 0" "(4 * j + 1) mod 4 = 1" "(4 * j + 2) mod 4 = 2" "(4 * j + 3) mod 4 = 3"
  by presburger+

lemma compositeOnto_length [simp]:
  "length (compositeOnto canvas op raster f) = 4 * (OUTPUT_WIDTH * OUTPUT_HEIGHT)"
  by (simp add: compositeOnto_def)

lemma compositeOnto_pixel:
  assumes "j < OUTPUT_WIDTH * OUTPUT_HEIGHT"
  shows "pixelAt (compositeOnto canvas op raster f) j
           = blendOp canvas op (pixelAt raster j) (pixelAt f j)"
proof -
  have lt: "4 * j < 4 * (OUTPUT_WIDTH * OUTPUT_HEIGHT)" "4 * j + 1 < 4 * (OUTPUT_WIDTH * OUTPUT_HEIGHT)"
    "4 * j + 2 < 4 * (OUTPUT_WIDTH * OUTPUT_HEIGHT)" "4 * j + 3 < 4 * (OUTPUT_WIDTH * OUTPUT_HEIGHT)"
    using assms by simp_all
  have nth: "compositeOnto canvas op raster f ! i
               = channelOf (blendOp canvas op (pixelAt raster (i div 4)) (pixelAt f (i div 4))) (i mod 4)"
    if "i < 4 * (OUTPUT_WIDTH * OUTPUT_HEIGHT)" for i
    using that by (simp add: compositeOnto_def)
  show ?thesis
    unfolding pixelAt_def [of "compositeOnto canvas op raster f"]
    by (simp only: nth [OF lt(1)] nth [OF lt(2)] nth [OF lt(3)] nth [OF lt(4)] quad_index
        pixel_channels)
qed

lemma opaqueRaster_pixel:
  assumes "opaqueRaster raster" and "j < OUTPUT_WIDTH * OUTPUT_HEIGHT"
  shows "pixelAt raster j = (raster ! (4 * j), raster ! (4 * j + 1), raster ! (4 * j + 2), 255)"
  using assms by (simp add: opaqueRaster_def pixelAt_def list_all_iff)

lemma compositeOnto_opaque:
  assumes "\<forall>r g b q. blendOp canvas SourceOver (r, g, b, 255) q = (r, g, b, 255)"
    and "opaqueRaster raster"
  shows "compositeOnto canvas SourceOver raster f = compositeOnto canvas SourceOver raster f'"
  unfolding compositeOnto_def
proof (rule map_cong [OF refl])
  fix i
  assume "i \<in> set [0..<4 * (OUTPUT_WIDTH * OUTPUT_HEIGHT)]"
  then have "i div 4 < OUTPUT_WIDTH * OUTPUT_HEIGHT"
    by simp
  with assms(2) have p: "pixelAt raster (i div 4)
      = (raster ! (4 * (i div 4)), raster ! (4 * (i div 4) + 1), raster ! (4 * (i div 4) + 2), 255)"
    by (rule opaqueRaster_pixel)
  show "channelOf (blendOp canvas SourceOver (pixelAt raster (i div 4)) (pixelAt f (i div 4))) (i mod 4)
          = channelOf (blendOp canvas SourceOver (pixelAt raster (i div 4)) (pixelAt f' (i div 4))) (i mod 4)"
  proof -
    have "blendOp canvas SourceOver (r, g, b, 255) q = (r, g, b, 255)" for r g b q
      using assms(1) by blast
    then show ?thesis unfolding p by (simp only:)
  qed
qed

subsection \<open>The crop lies within the source\<close>

lemma cropToAspect_within:
  fixes source :: "'a ImageSource_scheme"
  assumes "srcWidth source = Some w" and "srcHeight source = Some h"
    and "0 < w" and "0 < h" and "0 < aspectRatio"
  shows "cropWithin source (cropToAspect source aspectRatio zoomFactor)"
proof -
  define zoom where "zoom = clamp zoomFactor 0 60 / 100 + 1"
  define cw where "cw = fst (cropBeforeZoom (real w) (real h) aspectRatio) / zoom"
  define ch where "ch = snd (cropBeforeZoom (real w) (real h) aspectRatio) / zoom"
  have w: "0 < real w" and h: "0 < real h" using assms by simp_all
  have zoom: "1 \<le> zoom" unfolding zoom_def using zoom_range [of zoomFactor] by simp
  have fits: "0 < fst (cropBeforeZoom (real w) (real h) aspectRatio)"
    "fst (cropBeforeZoom (real w) (real h) aspectRatio) \<le> real w"
    "0 < snd (cropBeforeZoom (real w) (real h) aspectRatio)"
    "snd (cropBeforeZoom (real w) (real h) aspectRatio) \<le> real h"
    using cropBeforeZoom_fits [OF w h assms(5)] by simp_all
  have cw: "0 < cw" "cw \<le> real w"
    unfolding cw_def using zoomed_fits [OF fits(1,2) zoom] by simp_all
  have ch: "0 < ch" "ch \<le> real h"
    unfolding ch_def using zoomed_fits [OF fits(3,4) zoom] by simp_all
  have r: "cropToAspect source aspectRatio zoomFactor
             = \<lparr>offsetX = (real w - cw) / 2, offsetY = (real h - ch) / 2,
                cropWidth = cw, cropHeight = ch\<rparr>"
    unfolding cw_def ch_def zoom_def
    by (simp add: cropToAspect_def assms(1,2) Let_def split_beta)
  show ?thesis
    unfolding r using cw ch centred_fits [OF cw] centred_fits [OF ch]
    by (simp add: cropWithin_def assms(1,2))
qed

lemma opaqueSource_crop:
  assumes "opaqueSource source"
  shows "cropWithin source
           (cropToAspect source (real OUTPUT_WIDTH / real OUTPUT_HEIGHT) zoomFactor)"
proof -
  from assms obtain w h where "srcWidth source = Some w" "srcHeight source = Some h" "0 < w" "0 < h"
    by (auto simp add: opaqueSource_def split: option.splits)
  moreover have "0 < real OUTPUT_WIDTH / real OUTPUT_HEIGHT"
    by (simp add: OUTPUT_WIDTH_def OUTPUT_HEIGHT_def)
  ultimately show ?thesis by (rule cropToAspect_within)
qed

subsection \<open>The background is overwritten\<close>

lemma strengths_ignore_backgroundLift:
  "depthStrength (settings\<lparr>backgroundLift := a\<rparr>) = depthStrength settings"
  "sheenStrength (settings\<lparr>backgroundLift := a\<rparr>) = sheenStrength settings"
  "matteStrength (settings\<lparr>backgroundLift := a\<rparr>) = matteStrength settings"
  "detailStrength (settings\<lparr>backgroundLift := a\<rparr>) = detailStrength settings"
  "luminosityShift (settings\<lparr>backgroundLift := a\<rparr>) = luminosityShift settings"
  "blurRadius (settings\<lparr>backgroundLift := a\<rparr>) = blurRadius settings"
  by (simp_all add: depthStrength_def sheenStrength_def matteStrength_def detailStrength_def
      luminosityShift_def blurRadius_def)

lemma toneValue_ignores_backgroundLift:
  "toneValue (settings\<lparr>backgroundLift := a\<rparr>) = toneValue settings"
  unfolding toneValue_def microOf_def strengths_ignore_backgroundLift ..

lemma fieldsOf_ignores_backgroundLift:
  "fieldsOf (settings\<lparr>backgroundLift := a\<rparr>) = fieldsOf settings"
  unfolding fieldsOf_def smoothedOf_def strengths_ignore_backgroundLift ..

lemma toneMap_ignores_backgroundLift:
  "toneMap (settings\<lparr>backgroundLift := a\<rparr>) = toneMap settings"
  unfolding toneMap_def pixelValue_def toneValue_ignores_backgroundLift
    fieldsOf_ignores_backgroundLift ..

lemma toneFrame_ignores_backgroundLift:
  "toneFrame (settings\<lparr>backgroundLift := a\<rparr>) = toneFrame settings"
  unfolding toneFrame_def toneMap_ignores_backgroundLift ..

lemma paintVignette_ignores_backgroundLift:
  "paintVignette canvas (settings\<lparr>backgroundLift := a\<rparr>) = paintVignette canvas settings"
proof -
  have "vignette (settings\<lparr>backgroundLift := a\<rparr>) = vignette settings" by simp
  then show ?thesis unfolding paintVignette_def by (simp only:)
qed

lemma paintStand_ignores_backgroundLift:
  "paintStand canvas (settings\<lparr>backgroundLift := a\<rparr>) = paintStand canvas settings"
proof -
  have "standHeight (settings\<lparr>backgroundLift := a\<rparr>) = standHeight settings" by simp
  then show ?thesis
    unfolding paintStand_def by (simp only: strengths_ignore_backgroundLift)
qed

lemma paintSource_ignores_backgroundLift:
  "paintSource canvas source (settings\<lparr>backgroundLift := a\<rparr>) = paintSource canvas source settings"
proof -
  have "macroZoom (settings\<lparr>backgroundLift := a\<rparr>) = macroZoom settings" by simp
  then show ?thesis unfolding paintSource_def by (simp only:)
qed

lemma paintBackground_shape:
  "(paintBackground canvas settings ctx)\<lparr>fillStyle := x, frame := f\<rparr>
     = (save ctx)\<lparr>fillStyle := x, frame := f\<rparr>"
  by (simp add: paintBackground_def Let_def fillRect_def clearRect_def)

lemma paintSource_commutes_fillStyle:
  "paintSource canvas source settings (ctx\<lparr>fillStyle := x\<rparr>)
     = (paintSource canvas source settings ctx)\<lparr>fillStyle := x\<rparr>"
  by (simp add: paintSource_def Let_def drawImage_def)

lemma paintSource_overwrites_frame:
  assumes "\<forall>src crop. opaqueSource src \<and> cropWithin src crop \<longrightarrow>
             opaqueRaster (sampleOp canvas ''none'' True ''high'' src crop
                             (0, 0, real OUTPUT_WIDTH, real OUTPUT_HEIGHT))"
    and "\<forall>r g b q. blendOp canvas SourceOver (r, g, b, 255) q = (r, g, b, 255)"
    and "opaqueSource source"
    and "globalCompositeOperation ctx = SourceOver"
  shows "paintSource canvas source settings (ctx\<lparr>frame := f\<rparr>)
           = paintSource canvas source settings (ctx\<lparr>frame := f'\<rparr>)"
proof -
  define crop where
    "crop = cropToAspect source (real OUTPUT_WIDTH / real OUTPUT_HEIGHT) (macroZoom settings)"
  define raster where
    "raster = sampleOp canvas ''none'' True ''high'' source crop
                (0, 0, real OUTPUT_WIDTH, real OUTPUT_HEIGHT)"
  have "cropWithin source crop"
    unfolding crop_def using assms(3) by (rule opaqueSource_crop)
  with assms(1,3) have "opaqueRaster raster"
    unfolding raster_def by blast
  with assms(2) have "compositeOnto canvas SourceOver raster f
                        = compositeOnto canvas SourceOver raster f'"
    by (rule compositeOnto_opaque)
  then show ?thesis
    unfolding raster_def crop_def
    by (simp add: paintSource_def Let_def drawImage_def assms(4))
qed

lemma toneFrame_commutes_fillStyle:
  "toneFrame settings (ctx\<lparr>fillStyle := x\<rparr>) = (toneFrame settings ctx)\<lparr>fillStyle := x\<rparr>"
  by (simp add: toneFrame_def Let_def getImageData_def putImageData_def)

lemma paintVignette_fillStyle:
  "paintVignette canvas settings (ctx\<lparr>fillStyle := x\<rparr>)
     = (if clamp (vignette settings) 0 100 / 100 > 0 then paintVignette canvas settings ctx
        else (paintVignette canvas settings ctx)\<lparr>fillStyle := x\<rparr>)"
  by (simp add: paintVignette_def Let_def fillRect_def drawState_def)

lemma paintStand_ignores_fillStyle:
  "paintStand canvas settings (ctx\<lparr>fillStyle := x\<rparr>) = paintStand canvas settings ctx"
  unfolding paintStand_def Let_def by simp

lemma render_after_background:
  assumes "\<forall>src crop. opaqueSource src \<and> cropWithin src crop \<longrightarrow>
             opaqueRaster (sampleOp canvas ''none'' True ''high'' src crop
                             (0, 0, real OUTPUT_WIDTH, real OUTPUT_HEIGHT))"
    and "\<forall>r g b q. blendOp canvas SourceOver (r, g, b, 255) q = (r, g, b, 255)"
    and "opaqueSource source"
    and "globalCompositeOperation ctx = SourceOver"
    and "C\<lparr>fillStyle := x, frame := []\<rparr> = (save ctx)\<lparr>fillStyle := x, frame := []\<rparr>"
  shows "paintStand canvas settings (paintVignette canvas settings
           (toneFrame settings (paintSource canvas source settings C)))
         = paintStand canvas settings (paintVignette canvas settings
           (toneFrame settings (paintSource canvas source settings
              ((save ctx)\<lparr>fillStyle := x, frame := []\<rparr>))))"
proof -
  define P where "P = paintSource canvas source settings ((save ctx)\<lparr>fillStyle := x, frame := []\<rparr>)"
  have "globalCompositeOperation (C\<lparr>fillStyle := x, frame := []\<rparr>)
          = globalCompositeOperation ((save ctx)\<lparr>fillStyle := x, frame := []\<rparr>)"
    by (simp only: assms(5))
  then have op: "globalCompositeOperation C = SourceOver"
    using assms(4) by (simp add: save_def)
  have "paintSource canvas source settings C
          = paintSource canvas source settings (C\<lparr>frame := frame C\<rparr>)"
    by simp
  also have "\<dots> = paintSource canvas source settings (C\<lparr>frame := []\<rparr>)"
    using assms(1,2,3) op by (rule paintSource_overwrites_frame)
  also have "C\<lparr>frame := []\<rparr> = (C\<lparr>fillStyle := x, frame := []\<rparr>)\<lparr>fillStyle := fillStyle C\<rparr>"
    by simp
  also have "\<dots> = ((save ctx)\<lparr>fillStyle := x, frame := []\<rparr>)\<lparr>fillStyle := fillStyle C\<rparr>"
    by (simp only: assms(5))
  finally have src: "paintSource canvas source settings C = P\<lparr>fillStyle := fillStyle C\<rparr>"
    unfolding P_def paintSource_commutes_fillStyle .
  have "paintStand canvas settings (paintVignette canvas settings
           (toneFrame settings (P\<lparr>fillStyle := fillStyle C\<rparr>)))
        = paintStand canvas settings (paintVignette canvas settings (toneFrame settings P))"
    unfolding toneFrame_commutes_fillStyle paintVignette_fillStyle
    by (simp add: paintStand_ignores_fillStyle)
  then show ?thesis unfolding src P_def .
qed

subsection \<open>The reference surface\<close>

lemma rasterOf_length [simp]: "length (rasterOf p) = 4 * (OUTPUT_WIDTH * OUTPUT_HEIGHT)"
  by (simp add: rasterOf_def)

lemma rasterOf_pixel:
  assumes "j < OUTPUT_WIDTH * OUTPUT_HEIGHT"
  shows "pixelAt (rasterOf p) j = p (j mod OUTPUT_WIDTH) (j div OUTPUT_WIDTH)"
proof -
  have lt: "4 * j < 4 * (OUTPUT_WIDTH * OUTPUT_HEIGHT)" "4 * j + 1 < 4 * (OUTPUT_WIDTH * OUTPUT_HEIGHT)"
    "4 * j + 2 < 4 * (OUTPUT_WIDTH * OUTPUT_HEIGHT)" "4 * j + 3 < 4 * (OUTPUT_WIDTH * OUTPUT_HEIGHT)"
    using assms by simp_all
  have nth: "rasterOf p ! i
               = channelOf (p ((i div 4) mod OUTPUT_WIDTH) ((i div 4) div OUTPUT_WIDTH)) (i mod 4)"
    if "i < 4 * (OUTPUT_WIDTH * OUTPUT_HEIGHT)" for i
    using that by (simp add: rasterOf_def)
  show ?thesis
    unfolding pixelAt_def [of "rasterOf p"]
    by (simp only: nth [OF lt(1)] nth [OF lt(2)] nth [OF lt(3)] nth [OF lt(4)] quad_index
        pixel_channels)
qed

lemma pixelBlend_opaque: "pixelBlend SourceOver (r, g, b, 255) q = (r, g, b, 255)"
  by (cases q) (simp add: pixelBlend_def overChannel_def overAlpha_def blendChannel_def)

lemma sample_coordinate:
  fixes off size :: real
  assumes "0 \<le> off" and "0 < size" and "off + size \<le> real n" and "x < m"
  shows "0 \<le> \<lfloor>off + (real x + 0.5 - 0) / real m * size\<rfloor>
         \<and> \<lfloor>off + (real x + 0.5 - 0) / real m * size\<rfloor> < int n"
proof -
  define t where "t = (real x + 0.5 - 0) / real m"
  have m: "0 < real m" using assms(4) by simp
  have "real x + 1 \<le> real m" using assms(4) by (simp add: of_nat_less_iff [symmetric] del: of_nat_less_iff)
  then have t: "0 \<le> t" "t < 1"
    unfolding t_def using m by simp_all
  have "t * size < 1 * size"
    using t(2) assms(2) by (rule mult_strict_right_mono)
  then have hi: "off + t * size < real n" using assms(3) by simp
  have lo: "0 \<le> off + t * size" using assms(1,2) t(1) by simp
  from lo hi show ?thesis
    unfolding t_def [symmetric] by (simp add: floor_less_iff)
qed

lemma nearestSample_opaque:
  assumes "opaqueSource src" and "cropWithin src crop"
  shows "opaqueRaster (nearestSample src crop (0, 0, real OUTPUT_WIDTH, real OUTPUT_HEIGHT))"
proof -
  from assms(1) obtain w h where wh: "srcWidth src = Some w" "srcHeight src = Some h"
    and pos: "0 < w" "0 < h"
    and alpha: "\<And>k. k < w * h \<Longrightarrow> srcData src ! (4 * k + 3) = 255"
    by (auto simp add: opaqueSource_def list_all_iff split: option.splits)
  from assms(2) have crop: "0 \<le> offsetX crop" "0 \<le> offsetY crop" "0 < cropWidth crop"
    "0 < cropHeight crop" "offsetX crop + cropWidth crop \<le> real w"
    "offsetY crop + cropHeight crop \<le> real h"
    by (simp_all add: cropWithin_def wh)
  define p where "p = (\<lambda>x y.
      if inRect (0, 0, real OUTPUT_WIDTH, real OUTPUT_HEIGHT) x y
      then sourcePixel src
             \<lfloor>offsetX crop + (real x + 0.5 - 0) / real OUTPUT_WIDTH * cropWidth crop\<rfloor>
             \<lfloor>offsetY crop + (real y + 0.5 - 0) / real OUTPUT_HEIGHT * cropHeight crop\<rfloor>
      else (0, 0, 0, 0))"
  have raster: "nearestSample src crop (0, 0, real OUTPUT_WIDTH, real OUTPUT_HEIGHT) = rasterOf p"
    by (simp add: nearestSample_def p_def)
  have "rasterOf p ! (4 * j + 3) = 255" if j: "j < OUTPUT_WIDTH * OUTPUT_HEIGHT" for j
  proof -
    define x where "x = j mod OUTPUT_WIDTH"
    define y where "y = j div OUTPUT_WIDTH"
    have x: "x < OUTPUT_WIDTH" unfolding x_def by (simp add: OUTPUT_WIDTH_def)
    have y: "y < OUTPUT_HEIGHT"
      unfolding y_def using j by (simp add: less_mult_imp_div_less mult.commute)
    define ix where "ix = \<lfloor>offsetX crop + (real x + 0.5 - 0) / real OUTPUT_WIDTH * cropWidth crop\<rfloor>"
    define iy where "iy = \<lfloor>offsetY crop + (real y + 0.5 - 0) / real OUTPUT_HEIGHT * cropHeight crop\<rfloor>"
    have ix: "0 \<le> ix" "ix < int w"
      unfolding ix_def using sample_coordinate [OF crop(1,3,5) x] by simp_all
    have iy: "0 \<le> iy" "iy < int h"
      unfolding iy_def using sample_coordinate [OF crop(2,4,6) y] by simp_all
    have "nat iy < h" "nat ix < w" using ix iy by simp_all
    then have "nat iy * w + nat ix < w * h"
      by (metis grid_index_bound mult.commute)
    then have a: "srcData src ! (4 * (nat iy * w + nat ix) + 3) = 255"
      by (rule alpha)
    have "real x + 1 \<le> real OUTPUT_WIDTH" "real y + 1 \<le> real OUTPUT_HEIGHT"
      using x y by (simp_all add: of_nat_less_iff [symmetric] del: of_nat_less_iff)
    then have "inRect (0, 0, real OUTPUT_WIDTH, real OUTPUT_HEIGHT) x y"
      by (simp add: inRect_def)
    then have "p x y = pixelAt (srcData src) (nat iy * w + nat ix)"
      unfolding p_def ix_def [symmetric] iy_def [symmetric]
      using ix iy by (simp add: sourcePixel_def wh)
    then have "pixelAt (rasterOf p) j = pixelAt (srcData src) (nat iy * w + nat ix)"
      unfolding rasterOf_pixel [OF j] x_def y_def .
    then show ?thesis
      using a by (simp add: pixelAt_def)
  qed
  then show ?thesis
    unfolding raster by (simp add: opaqueRaster_def list_all_iff)
qed


lemma surface_nonempty: "0 < OUTPUT_WIDTH * OUTPUT_HEIGHT"
  by (simp add: OUTPUT_WIDTH_def OUTPUT_HEIGHT_def)

lemma alpha_of_pixel: "channelOf (pixelAt f j) 3 = f ! (4 * j + 3)"
  by (simp add: pixelAt_def channelOf_def)

lemma first_pixel_alpha: "f ! 3 = channelOf (pixelAt f 0) 3"
  by (simp add: alpha_of_pixel)

lemma channelOf_alpha: "channelOf (r, g, b, a) 3 = a"
  by (simp add: channelOf_def)

lemma pixelBlend_alpha:
  "channelOf (pixelBlend op p q) 3 = overAlpha (channelOf p 3) (channelOf q 3)"
  by (cases p; cases q) (simp add: pixelBlend_def channelOf_def)

lemma fillRect_first_pixel:
  "pixelAt (frame (fillRect nearestCanvas rect ctx)) 0
     = pixelBlend (globalCompositeOperation ctx)
         (if inRect rect 0 0 then stylePixel (fillStyle ctx) else (0, 0, 0, 0))
         (pixelAt (frame ctx) 0)"
proof -
  have "pixelAt (flatFill (drawState ctx) rect) 0
          = (if inRect rect 0 0 then stylePixel (fillStyle ctx) else (0, 0, 0, 0))"
    unfolding flatFill_def rasterOf_pixel [OF surface_nonempty]
    by (simp add: drawState_def)
  then show ?thesis
    by (simp add: fillRect_def compositeOnto_pixel [OF surface_nonempty] nearestCanvas_def)
qed

lemma fillRect_first_alpha:
  "frame (fillRect nearestCanvas rect ctx) ! 3
     = overAlpha (if inRect rect 0 0 then channelOf (stylePixel (fillStyle ctx)) 3 else 0)
         (frame ctx ! 3)"
proof -
  have "frame (fillRect nearestCanvas rect ctx) ! 3
          = channelOf (pixelAt (frame (fillRect nearestCanvas rect ctx)) 0) 3"
    by (simp add: alpha_of_pixel)
  also have "\<dots> = overAlpha
        (channelOf (if inRect rect 0 0 then stylePixel (fillStyle ctx) else (0, 0, 0, 0)) 3)
        (channelOf (pixelAt (frame ctx) 0) 3)"
    unfolding fillRect_first_pixel by (rule pixelBlend_alpha)
  also have "channelOf (pixelAt (frame ctx) 0) 3 = frame ctx ! 3"
    by (simp add: alpha_of_pixel)
  also have "channelOf (if inRect rect 0 0 then stylePixel (fillStyle ctx) else (0, 0, 0, 0)) 3
               = (if inRect rect 0 0 then channelOf (stylePixel (fillStyle ctx)) 3 else 0)"
    by (simp add: channelOf_alpha)
  finally show ?thesis .
qed

lemma overAlpha_zero: "overAlpha 0 ab = ab" "overAlpha a 0 = a"
  by (simp_all add: overAlpha_def)

lemma sourcePixel_transparent: "sourcePixel transparentSample ix iy = (0, 0, 0, 0)"
proof (cases "0 \<le> ix \<and> ix < 1 \<and> 0 \<le> iy \<and> iy < 1")
  case True
  then have "ix = 0" "iy = 0" by simp_all
  then show ?thesis by (simp add: sourcePixel_def transparentSample_def pixelAt_def)
next
  case False
  then show ?thesis by (auto simp add: sourcePixel_def transparentSample_def)
qed

lemma drawImage_transparent_alpha:
  "frame (drawImage nearestCanvas transparentSample crop dest ctx) ! 3 = frame ctx ! 3"
proof -
  obtain dx dy dw dh where dest: "dest = (dx, dy, dw, dh)" by (cases dest) auto
  have "pixelAt (nearestSample transparentSample crop dest) 0 = (0, 0, 0, 0)"
    unfolding dest nearestSample_def prod.case rasterOf_pixel [OF surface_nonempty]
    by (simp add: sourcePixel_transparent)
  then have px: "pixelAt (frame (drawImage nearestCanvas transparentSample crop dest ctx)) 0
               = pixelBlend (globalCompositeOperation ctx) (0, 0, 0, 0) (pixelAt (frame ctx) 0)"
    by (simp add: drawImage_def compositeOnto_pixel [OF surface_nonempty] nearestCanvas_def)
  have "frame (drawImage nearestCanvas transparentSample crop dest ctx) ! 3
          = channelOf (pixelAt (frame (drawImage nearestCanvas transparentSample crop dest ctx)) 0) 3"
    by (simp add: alpha_of_pixel)
  also have "\<dots> = overAlpha (channelOf (0, 0, 0, 0) 3) (channelOf (pixelAt (frame ctx) 0) 3)"
    unfolding px by (rule pixelBlend_alpha)
  also have "\<dots> = frame ctx ! 3"
    by (simp add: channelOf_alpha overAlpha_zero alpha_of_pixel)
  finally show ?thesis .
qed

lemma toneFrame_alpha:
  assumes "3 < length (frame ctx)"
  shows "frame (toneFrame settings ctx) ! 3 = frame ctx ! 3"
  using toneMap_nth [OF assms, of settings OUTPUT_WIDTH OUTPUT_HEIGHT]
  by (simp add: toneFrame_def Let_def getImageData_def putImageData_def)

lemma background_first_pixel:
  "pixelAt (frame (paintBackground nearestCanvas settings freshContext)) 0
     = (250, 250, 247,
        toUint8Clamped ((0.85 + clamp (backgroundLift settings) 0 100 / 100 * 0.1) * 255))"
proof -
  define n where "n = 4 * (OUTPUT_WIDTH * OUTPUT_HEIGHT)"
  have n: "0 < n" "1 < n" "2 < n" "3 < n"
    by (simp_all add: n_def OUTPUT_WIDTH_def OUTPUT_HEIGHT_def)
  have "clearPixels rect (replicate n 0) ! i = 0" if "i < n" for rect i
    using that by (simp add: clearPixels_def)
  then have "pixelAt (clearPixels rect (replicate n 0)) 0 = (0, 0, 0, 0)" for rect
    using n by (simp add: pixelAt_def)
  then have cleared: "pixelAt (clearPixels rect (replicate (4 * (OUTPUT_WIDTH * OUTPUT_HEIGHT)) 0)) 0
                        = (0, 0, 0, 0)" for rect
    unfolding n_def .
  define v where "v = (0.85 + clamp (backgroundLift settings) 0 100 / 100 * 0.1) * 255"
  have "0 \<le> clamp (backgroundLift settings) 0 100 / 100"
    by (simp add: clamp_def)
  then have v: "216 \<le> v"
    unfolding v_def by simp
  then have "216 \<le> \<lfloor>v\<rfloor>"
    by (simp add: le_floor_iff)
  with v have pos: "0 < toUint8Clamped v"
    by (simp add: toUint8Clamped_def Let_def)
  have blend: "pixelBlend SourceOver (r, g, b, a) (0, 0, 0, 0) = (r, g, b, a)" if "0 < a" for r g b a
    using that by (simp add: pixelBlend_def overChannel_def overAlpha_def blendChannel_def)
  have rect: "inRect (0, 0, real OUTPUT_WIDTH, real OUTPUT_HEIGHT) 0 0"
    by (simp add: inRect_def OUTPUT_WIDTH_def OUTPUT_HEIGHT_def)
  have "pixelAt (frame (paintBackground nearestCanvas settings freshContext)) 0
          = pixelBlend SourceOver (250, 250, 247, toUint8Clamped v) (0, 0, 0, 0)"
    unfolding paintBackground_def Let_def fillRect_first_pixel v_def
    by (simp add: rect clearRect_def save_def nearestCanvas_def cleared stylePixel_def
        colourPixel_def createLinearGradient_def addColorStop_def freshContext_def)
  also have "\<dots> = (250, 250, 247, toUint8Clamped v)"
    using pos by (rule blend)
  finally show ?thesis unfolding v_def .
qed


lemma opaqueSample_opaque: "opaqueSource opaqueSample"
  by (simp add: opaqueSource_def opaqueSample_def list_all_iff less_Suc_eq numeral_eq_Suc)

lemma background_alpha_values:
  "toUint8Clamped ((0.85 + clamp (backgroundLift (defaultSettings\<lparr>backgroundLift := 0\<rparr>)) 0 100 / 100 * 0.1) * 255) = 217"
  "toUint8Clamped ((0.85 + clamp (backgroundLift defaultSettings) 0 100 / 100 * 0.1) * 255) = 235"
  "toUint8Clamped ((0.85 + clamp (backgroundLift (defaultSettings\<lparr>backgroundLift := 100\<rparr>)) 0 100 / 100 * 0.1) * 255) = 242"
proof -
  have f: "\<lfloor>867 / 4 :: real\<rfloor> = 216" "\<lfloor>23511 / 100 :: real\<rfloor> = 235" "\<lfloor>969 / 4 :: real\<rfloor> = 242"
    by (simp_all add: floor_eq_iff)
  show "toUint8Clamped ((0.85 + clamp (backgroundLift (defaultSettings\<lparr>backgroundLift := 0\<rparr>)) 0 100 / 100 * 0.1) * 255) = 217"
    by (simp add: clamp_def toUint8Clamped_def Let_def f defaultSettings_def)
  show "toUint8Clamped ((0.85 + clamp (backgroundLift defaultSettings) 0 100 / 100 * 0.1) * 255) = 235"
    by (simp add: clamp_def toUint8Clamped_def Let_def f defaultSettings_def)
  show "toUint8Clamped ((0.85 + clamp (backgroundLift (defaultSettings\<lparr>backgroundLift := 100\<rparr>)) 0 100 / 100 * 0.1) * 255) = 242"
    by (simp add: clamp_def toUint8Clamped_def Let_def f defaultSettings_def)
qed

subsection \<open>Settings that differ only in backgroundLift\<close>

text \<open>
  C9. The source is an image whose pixels are known and fully opaque: a positive width
  and height, and alpha 255 at every pixel. The surface is any canvas that keeps two
  rules of the canvas drawing model: an opaque source, cropped to a rectangle of positive
  size within its bounds and drawn with no filter over the whole surface, is rendered as
  an opaque bitmap; and compositing an opaque pixel in source-over mode gives that pixel,
  whatever the surface held there. The context enters the render in the default
  compositing mode (source-over). Then two settings that differ only in
  \<open>backgroundLift\<close> render the same context, pixel buffer and drawing state: the gradient
  built from \<open>backgroundLift\<close> only reaches the fill style and the frame; the crop the
  render computes lies within the source, so the draw of the source replaces every pixel
  of the frame, and \<open>putImageData\<close> replaces it again; the fill style is reassigned before
  it is next used.

  On the reference surface the background fill leaves the first pixel at alpha 217 for
  \<open>backgroundLift = 0\<close> and at alpha 235 for \<open>backgroundLift = 72\<close>, and the two renders
  of the opaque 2 x 2 source are the same.
\<close>

theorem backgroundLift_has_no_effect:
  assumes "\<forall>src crop. opaqueSource src \<and> cropWithin src crop \<longrightarrow>
             opaqueRaster (sampleOp canvas ''none'' True ''high'' src crop
                             (0, 0, real OUTPUT_WIDTH, real OUTPUT_HEIGHT))"
    and "\<forall>r g b q. blendOp canvas SourceOver (r, g, b, 255) q = (r, g, b, 255)"
    and "opaqueSource source"
    and "globalCompositeOperation ctx = SourceOver"
  shows "renderPlasterEffect canvas source ctx (settings\<lparr>backgroundLift := b\<rparr>)
           = renderPlasterEffect canvas source ctx settings"
proof -
  define x where "x = FillColour (Hex [])"
  have a: "(paintBackground canvas (settings\<lparr>backgroundLift := b\<rparr>) ctx)\<lparr>fillStyle := x, frame := []\<rparr>
             = (save ctx)\<lparr>fillStyle := x, frame := []\<rparr>"
    by (rule paintBackground_shape)
  have b: "(paintBackground canvas settings ctx)\<lparr>fillStyle := x, frame := []\<rparr>
             = (save ctx)\<lparr>fillStyle := x, frame := []\<rparr>"
    by (rule paintBackground_shape)
  show ?thesis
    unfolding renderPlasterEffect_def Let_def
      paintSource_ignores_backgroundLift toneFrame_ignores_backgroundLift
      paintVignette_ignores_backgroundLift paintStand_ignores_backgroundLift
      render_after_background [OF assms a] render_after_background [OF assms b] ..
qed

theorem backgroundLift_has_no_effect_witness:
  "opaqueSource opaqueSample
   \<and> globalCompositeOperation freshContext = SourceOver
   \<and> pixelAt (frame (paintBackground nearestCanvas (defaultSettings\<lparr>backgroundLift := 0\<rparr>)
                        freshContext)) 0 = (250, 250, 247, 217)
   \<and> pixelAt (frame (paintBackground nearestCanvas defaultSettings freshContext)) 0
       = (250, 250, 247, 235)
   \<and> renderPlasterEffect nearestCanvas opaqueSample freshContext
         (defaultSettings\<lparr>backgroundLift := 0\<rparr>)
       = renderPlasterEffect nearestCanvas opaqueSample freshContext defaultSettings"
proof -
  have sampler: "\<forall>src crop. opaqueSource src \<and> cropWithin src crop \<longrightarrow>
      opaqueRaster (sampleOp nearestCanvas ''none'' True ''high'' src crop
                      (0, 0, real OUTPUT_WIDTH, real OUTPUT_HEIGHT))"
    by (simp add: nearestCanvas_def nearestSample_opaque)
  have over: "\<forall>r g b q. blendOp nearestCanvas SourceOver (r, g, b, 255) q = (r, g, b, 255)"
    by (simp add: nearestCanvas_def pixelBlend_opaque)
  have mode: "globalCompositeOperation freshContext = SourceOver"
    by (simp add: freshContext_def)
  have "renderPlasterEffect nearestCanvas opaqueSample freshContext
          (defaultSettings\<lparr>backgroundLift := 0\<rparr>)
        = renderPlasterEffect nearestCanvas opaqueSample freshContext defaultSettings"
    using sampler over opaqueSample_opaque mode by (rule backgroundLift_has_no_effect)
  moreover have "pixelAt (frame (paintBackground nearestCanvas
                     (defaultSettings\<lparr>backgroundLift := 0\<rparr>) freshContext)) 0
                   = (250, 250, 247, 217)"
    unfolding background_first_pixel background_alpha_values ..
  moreover have "pixelAt (frame (paintBackground nearestCanvas defaultSettings freshContext)) 0
                   = (250, 250, 247, 235)"
    unfolding background_first_pixel background_alpha_values ..
  ultimately show ?thesis
    using opaqueSample_opaque mode by blast
qed

subsection \<open>A transparent source shows the background\<close>

lemma vignette_first_alpha:
  "frame (paintVignette nearestCanvas settings ctx) ! 3 = frame ctx ! 3"
  unfolding paintVignette_def Let_def
  by (simp add: fillRect_first_alpha stylePixel_def colourPixel_def createRadialGradient_def
      addColorStop_def channelOf_alpha overAlpha_zero toUint8Clamped_def)

lemma stand_first_alpha:
  "frame (paintStand nearestCanvas settings ctx) ! 3 = frame ctx ! 3"
proof -
  have "clamp (standHeight settings) 10 45 \<le> 45"
    by (simp add: clamp_def)
  then show ?thesis
    unfolding paintStand_def Let_def
    by (simp add: fillRect_first_alpha inRect_def OUTPUT_HEIGHT_def OUTPUT_WIDTH_def
        overAlpha_zero)
qed

lemma baseShadow_first_alpha:
  "frame (paintBaseShadow nearestCanvas ctx) ! 3 = frame ctx ! 3"
proof -
  have "frame (restore x) = frame x" for x
    by (simp add: restore_def split: list.split)
  then show ?thesis
    unfolding paintBaseShadow_def Let_def
    by (simp add: fillRect_first_alpha inRect_def OUTPUT_HEIGHT_def OUTPUT_WIDTH_def
        overAlpha_zero)
qed

lemma source_first_alpha:
  "frame (paintSource nearestCanvas transparentSample settings ctx) ! 3 = frame ctx ! 3"
  unfolding paintSource_def Let_def
  by (simp add: drawImage_transparent_alpha)

lemma transparent_render_alpha:
  "frame (renderPlasterEffect nearestCanvas transparentSample freshContext settings) ! 3
     = toUint8Clamped ((0.85 + clamp (backgroundLift settings) 0 100 / 100 * 0.1) * 255)"
proof -
  define B where "B = paintBackground nearestCanvas settings freshContext"
  define S where "S = paintSource nearestCanvas transparentSample settings B"
  have "length (frame S) = 4 * (OUTPUT_WIDTH * OUTPUT_HEIGHT)"
    unfolding S_def paintSource_def Let_def by (simp add: drawImage_def)
  then have "3 < length (frame S)"
    by (simp add: OUTPUT_WIDTH_def OUTPUT_HEIGHT_def)
  then have tone: "frame (toneFrame settings S) ! 3 = frame S ! 3"
    by (rule toneFrame_alpha)
  have "frame B ! 3 = channelOf (pixelAt (frame B) 0) 3"
    by (rule first_pixel_alpha)
  then have bg: "frame B ! 3
      = toUint8Clamped ((0.85 + clamp (backgroundLift settings) 0 100 / 100 * 0.1) * 255)"
    unfolding B_def background_first_pixel by (simp add: channelOf_alpha)
  have "frame (renderPlasterEffect nearestCanvas transparentSample freshContext settings) ! 3
          = frame S ! 3"
    unfolding renderPlasterEffect_def Let_def B_def [symmetric] S_def [symmetric]
    by (simp add: baseShadow_first_alpha stand_first_alpha vignette_first_alpha tone)
  also have "\<dots> = frame B ! 3"
    unfolding S_def by (rule source_first_alpha)
  finally show ?thesis unfolding bg .
qed

text \<open>
  The opacity of the source is needed. On the reference surface, with the fully
  transparent 1 x 1 source, the alpha byte of the first pixel of the rendered frame is the
  one the background fill left there: 217 for \<open>backgroundLift = 0\<close> and 242 for
  \<open>backgroundLift = 100\<close>.
\<close>

lemma transparent_source_shows_background:
  "frame (renderPlasterEffect nearestCanvas transparentSample freshContext
            (defaultSettings\<lparr>backgroundLift := 0\<rparr>)) ! 3 = 217"
  "frame (renderPlasterEffect nearestCanvas transparentSample freshContext
            (defaultSettings\<lparr>backgroundLift := 100\<rparr>)) ! 3 = 242"
  unfolding transparent_render_alpha background_alpha_values by (rule refl)+

subsection \<open>Worked examples\<close>

lemma default_blur_radius:
  "blurRadius \<lparr>depth = 62, luminosity = 8, sheen = 68, matte = 40, smoothness = 32,
      microDetail = 48, backgroundLift = 72, macroZoom = 18, standHeight = 24,
      vignette = 36\<rparr> = 2"
  unfolding blurRadius_def by (rule round_unique) (simp_all add: clamp_def)

lemma toUint8Clamped_examples:
  "toUint8Clamped (5 / 2) = 2" "toUint8Clamped (7 / 2) = 4" "toUint8Clamped 300 = 255"
  "toUint8Clamped (- 3) = 0" "toUint8Clamped (1274 / 10) = 127"
proof -
  have f: "\<lfloor>5 / 2 :: real\<rfloor> = 2" "\<lfloor>7 / 2 :: real\<rfloor> = 3" "\<lfloor>1274 / 10 :: real\<rfloor> = 127"
    by (simp_all add: floor_eq_iff)
  show "toUint8Clamped (5 / 2) = 2" "toUint8Clamped (7 / 2) = 4" "toUint8Clamped 300 = 255"
    "toUint8Clamped (- 3) = 0" "toUint8Clamped (1274 / 10) = 127"
    by (simp_all add: toUint8Clamped_def Let_def f)
qed

lemma normaliseArray_examples:
  "normaliseArray [3, 1, 2] = [1, 0, 1 / 2]" "normaliseArray [5, 5] = [0, 0]"
  by (simp_all add: normaliseArray_map)

lemma cropToAspect_example:
  "cropToAspect \<lparr>srcWidth = Some 1600, srcHeight = Some 1200\<rparr> (3 / 4) 0
     = \<lparr>offsetX = 350, offsetY = 0, cropWidth = 900, cropHeight = 1200\<rparr>"
  by (simp add: cropToAspect_def cropBeforeZoom_def clamp_def Let_def)

lemma contrastTransform_pivot: "contrastTransform 128 c = 128"
  by (simp add: contrastTransform_def clamp_def)

end
